theory Spec2Isabelle
  imports Complex_Main
begin

section \<open>Benford's Law game: scorer and leaderboard store of app.py\<close>

text \<open>
  The development embeds the reproducible logic of \<^verbatim>\<open>app.py\<close>: the scoring function
  \<^verbatim>\<open>chi_square_score\<close>, the Submit handler, the CSV-backed leaderboard
  (\<^verbatim>\<open>load_leaderboard\<close>, \<^verbatim>\<open>save_leaderboard\<close>) and the admin controls.

  Conventions of the embedding.
  \<^item> Python \<^verbatim>\<open>int\<close> is \<open>int\<close>.
  \<^item> \<^verbatim>\<open>chi_square_score\<close> is embedded twice. In \<open>chi_square_score\<close> a Python \<^verbatim>\<open>float\<close> is
    idealised as \<open>real\<close>: arithmetic is exact, the literals \<^verbatim>\<open>0.301\<close>, \<^verbatim>\<open>0.10\<close> are the
    decimal fractions they denote, NaN and the infinities are not represented, and the
    one float effect that changes control flow, the \<^verbatim>\<open>OverflowError\<close> of \<^verbatim>\<open>math.exp\<close>, is
    kept as an error branch; the Submit handler is stated on it. In
    \<open>chi_square_score_double\<close> a \<^verbatim>\<open>float\<close> is a double and every operation rounds; what is
    said of the value of a score is stated on it.
  \<^item> Python \<^verbatim>\<open>str\<close> is \<open>string\<close>; a \<open>char\<close> stands for a code point below 256.
  \<^item> Every exception is a value of \<open>py_error\<close>; \<^verbatim>\<open>st.stop()\<close> after \<^verbatim>\<open>st.error\<close> is the
    outcome \<open>Halted\<close>.
  \<^item> The session state and the file \<^verbatim>\<open>leaderboard.csv\<close> are the two fields of \<open>app_state\<close>.
  \<^item> The builtins \<^verbatim>\<open>str\<close> and \<^verbatim>\<open>float\<close> on score values are parameters \<open>repr\<close> and \<open>flt\<close> of
    the functions that persist and load.
\<close>

subsection \<open>Errors\<close>

datatype py_error =
    ZeroDivisionError
  | OverflowError
  | IndexError
  | ValueError
  | StopIteration
  | CsvError

subsection \<open>Constants\<close>

definition BENFORD :: "real list" where
  "BENFORD = [301/1000, 176/1000, 125/1000, 97/1000, 79/1000, 67/1000, 58/1000, 51/1000, 46/1000]"

subsection \<open>chi_square_score\<close>

text \<open>One iteration of \<^verbatim>\<open>for i in range(9)\<close>: the term is added only when \<^verbatim>\<open>E > 0\<close>.\<close>

definition chi_sq_step :: "int list \<Rightarrow> real list \<Rightarrow> int \<Rightarrow> real \<Rightarrow> nat \<Rightarrow> real" where
  "chi_sq_step counts benford tot chi i =
     (let Oi = real_of_int (counts ! i);
          Ei = benford ! i * real_of_int tot
      in if Ei > 0 then chi + (Oi - Ei)\<^sup>2 / Ei else chi)"

definition chi_sq :: "int list \<Rightarrow> real list \<Rightarrow> int \<Rightarrow> real" where
  "chi_sq counts benford tot = foldl (chi_sq_step counts benford tot) 0 [0..<9]"

text \<open>The largest finite double, \<open>(2 - 2\<^sup>-\<^sup>5\<^sup>2) * 2\<^sup>1\<^sup>0\<^sup>2\<^sup>3\<close>.\<close>

definition DBL_MAX :: real where
  "DBL_MAX = 2 ^ 1024 - 2 ^ 971"

text \<open>\<^verbatim>\<open>math.exp\<close> raises \<^verbatim>\<open>OverflowError\<close> (math range error) when the result is too large
  for a double.\<close>

definition math_exp :: "real \<Rightarrow> py_error + real" where
  "math_exp x = (if exp x > DBL_MAX then Inl OverflowError else Inr (exp x))"

text \<open>\<^verbatim>\<open>round(x, 1)\<close>: the nearest multiple of one tenth, ties to the even one.\<close>

definition round_half_even :: "real \<Rightarrow> int" where
  "round_half_even x =
     (let f = \<lfloor>x\<rfloor>; d = x - of_int f
      in if d < 1/2 then f else if d > 1/2 then f + 1
         else if even f then f else f + 1)"

definition py_round1 :: "real \<Rightarrow> real" where
  "py_round1 x = real_of_int (round_half_even (x * 10)) / 10"

text \<open>\<^verbatim>\<open>counts[i]\<close> and \<^verbatim>\<open>benford[i]\<close> raise \<^verbatim>\<open>IndexError\<close> for a list shorter than 9; nothing
  else can raise inside the loop, so the check is made once, before it.\<close>

definition chi_square_score :: "int list \<Rightarrow> real list \<Rightarrow> int \<Rightarrow> py_error + real" where
  "chi_square_score counts benford tot =
     (if length counts < 9 \<or> length benford < 9 then Inl IndexError
      else
        let c = chi_sq counts benford tot;
            k = 1/10;
            mid = 20
        in case math_exp (k * (c - mid)) of
             Inl e \<Rightarrow> Inl e
           | Inr ex \<Rightarrow> Inr (py_round1 (100 / (1 + ex))))"

text \<open>A digit histogram as the Submit handler builds it: nine non-negative counts and
  their sum.\<close>

definition histogram :: "int list \<Rightarrow> int \<Rightarrow> bool" where
  "histogram counts tot \<longleftrightarrow>
     length counts = 9 \<and> list_all (\<lambda>c. 0 \<le> c) counts \<and> sum_list counts = tot"

subsection \<open>chi_square_score in double precision\<close>

text \<open>
  The same function as CPython runs it. A \<^verbatim>\<open>float\<close> is an IEEE-754 binary64 number and
  every float operation gives the double nearest to the exact result, ties to the even
  significand. A finite double is held as the real number it stands for; the two zeros
  are one value, as nothing in \<^verbatim>\<open>chi_square_score\<close> tells them apart. The library functions
  behind \<^verbatim>\<open>x ** 2\<close> and \<^verbatim>\<open>math.exp\<close> are taken as correctly rounded.
\<close>

text \<open>The exponent of the last significand bit of the doubles around \<open>x\<close>: 53 significant
  bits, and the spacing \<open>2\<^sup>-\<^sup>1\<^sup>0\<^sup>7\<^sup>4\<close> of the subnormal numbers below \<open>2\<^sup>-\<^sup>1\<^sup>0\<^sup>2\<^sup>2\<close>.\<close>

definition ulp_exponent :: "real \<Rightarrow> int" where
  "ulp_exponent x = max (\<lfloor>log 2 \<bar>x\<bar>\<rfloor> - 52) (- 1074)"

text \<open>Rounding to nearest, ties to even, with the exponent unbounded above.\<close>

definition rnd :: "real \<Rightarrow> real" where
  "rnd x =
     (if x = 0 then 0
      else of_int (round_half_even (x / 2 powi ulp_exponent x)) * 2 powi ulp_exponent x)"

datatype double = Finite real | PInf | NInf | NaN

text \<open>The double that an operation with exact result \<open>x\<close> returns: a rounded value above
  \<open>DBL_MAX\<close> is an infinity.\<close>

definition fl :: "real \<Rightarrow> double" where
  "fl x = (let y = rnd x
           in if DBL_MAX < y then PInf else if y < - DBL_MAX then NInf else Finite y)"

text \<open>An \<^verbatim>\<open>int\<close> operand of a float operation is converted first; \<^verbatim>\<open>OverflowError\<close> (int too
  large to convert to float) when the nearest double is not finite.\<close>

definition int_to_double :: "int \<Rightarrow> py_error + double" where
  "int_to_double n =
     (case fl (real_of_int n) of Finite x \<Rightarrow> Inr (Finite x) | _ \<Rightarrow> Inl OverflowError)"

text \<open>\<^verbatim>\<open>a + b\<close>, \<^verbatim>\<open>a - b\<close> and \<^verbatim>\<open>a * b\<close> on floats never raise.\<close>

fun float_add :: "double \<Rightarrow> double \<Rightarrow> double" where
  "float_add (Finite x) (Finite y) = fl (x + y)"
| "float_add NaN b = NaN"
| "float_add a NaN = NaN"
| "float_add (Finite x) b = b"
| "float_add a (Finite y) = a"
| "float_add a b = (if a = b then a else NaN)"

fun float_neg :: "double \<Rightarrow> double" where
  "float_neg (Finite x) = Finite (- x)"
| "float_neg PInf = NInf"
| "float_neg NInf = PInf"
| "float_neg NaN = NaN"

definition float_sub :: "double \<Rightarrow> double \<Rightarrow> double" where
  "float_sub a b = float_add a (float_neg b)"

fun float_mul :: "double \<Rightarrow> double \<Rightarrow> double" where
  "float_mul (Finite x) (Finite y) = fl (x * y)"
| "float_mul NaN b = NaN"
| "float_mul a NaN = NaN"
| "float_mul (Finite x) b = (if x = 0 then NaN else if (0 < x) = (b = PInf) then PInf else NInf)"
| "float_mul a (Finite y) = (if y = 0 then NaN else if (0 < y) = (a = PInf) then PInf else NInf)"
| "float_mul a b = (if a = b then PInf else NInf)"

text \<open>\<^verbatim>\<open>a / b\<close> raises \<^verbatim>\<open>ZeroDivisionError\<close> for a zero divisor, whatever \<open>a\<close> is.\<close>

fun float_div :: "double \<Rightarrow> double \<Rightarrow> py_error + double" where
  "float_div a (Finite y) =
     (if y = 0 then Inl ZeroDivisionError
      else Inr (case a of
                  Finite x \<Rightarrow> fl (x / y)
                | PInf \<Rightarrow> if 0 < y then PInf else NInf
                | NInf \<Rightarrow> if 0 < y then NInf else PInf
                | NaN \<Rightarrow> NaN))"
| "float_div NaN b = Inr NaN"
| "float_div a NaN = Inr NaN"
| "float_div (Finite x) b = Inr (Finite 0)"
| "float_div a b = Inr NaN"

text \<open>\<^verbatim>\<open>x ** 2\<close>: \<^verbatim>\<open>OverflowError\<close> (numerical result out of range) when the square of a finite
  \<open>x\<close> is not finite.\<close>

fun float_pow2 :: "double \<Rightarrow> py_error + double" where
  "float_pow2 (Finite x) =
     (case fl (x * x) of Finite p \<Rightarrow> Inr (Finite p) | _ \<Rightarrow> Inl OverflowError)"
| "float_pow2 NaN = Inr NaN"
| "float_pow2 a = Inr PInf"

text \<open>\<^verbatim>\<open>E > 0\<close>.\<close>

fun float_pos :: "double \<Rightarrow> bool" where
  "float_pos (Finite x) = (0 < x)"
| "float_pos PInf = True"
| "float_pos a = False"

text \<open>\<^verbatim>\<open>math.exp\<close>: \<^verbatim>\<open>OverflowError\<close> (math range error) when the result for a finite
  argument is not finite.\<close>

fun math_exp_double :: "double \<Rightarrow> py_error + double" where
  "math_exp_double (Finite x) =
     (case fl (exp x) of Finite e \<Rightarrow> Inr (Finite e) | _ \<Rightarrow> Inl OverflowError)"
| "math_exp_double NInf = Inr (Finite 0)"
| "math_exp_double a = Inr a"

text \<open>\<^verbatim>\<open>round(x, 1)\<close>: the double nearest to the decimal that \<open>py_round1\<close> gives for the
  exact value of \<open>x\<close>; an infinity or a NaN is returned as it is.\<close>

fun float_round1 :: "double \<Rightarrow> double" where
  "float_round1 (Finite x) = fl (py_round1 x)"
| "float_round1 a = a"

text \<open>The literals of \<^verbatim>\<open>BENFORD\<close> as the parser reads them.\<close>

definition BENFORD_double :: "double list" where
  "BENFORD_double = map fl BENFORD"

text \<open>One iteration of the loop, statement by statement: \<^verbatim>\<open>counts[i]\<close>, \<^verbatim>\<open>benford[i]\<close>,
  the conversion of \<^verbatim>\<open>total\<close> and the product; under \<^verbatim>\<open>E > 0\<close> the conversion of \<^verbatim>\<open>O\<close>, the
  difference, the square, the quotient and the sum.\<close>

definition chi_sq_step_double ::
  "int list \<Rightarrow> double list \<Rightarrow> int \<Rightarrow> double \<Rightarrow> nat \<Rightarrow> py_error + double" where
  "chi_sq_step_double counts benford tot chi i =
     (if length counts \<le> i \<or> length benford \<le> i then Inl IndexError
      else case int_to_double tot of
        Inl e \<Rightarrow> Inl e
      | Inr t \<Rightarrow>
          let Ei = float_mul (benford ! i) t
          in if float_pos Ei then
               case int_to_double (counts ! i) of
                 Inl e \<Rightarrow> Inl e
               | Inr Oi \<Rightarrow>
                   (case float_pow2 (float_sub Oi Ei) of
                      Inl e \<Rightarrow> Inl e
                    | Inr p \<Rightarrow>
                        (case float_div p Ei of
                           Inl e \<Rightarrow> Inl e
                         | Inr q \<Rightarrow> Inr (float_add chi q)))
             else Inr chi)"

fun chi_sq_loop ::
  "int list \<Rightarrow> double list \<Rightarrow> int \<Rightarrow> double \<Rightarrow> nat list \<Rightarrow> py_error + double" where
  "chi_sq_loop counts benford tot chi [] = Inr chi"
| "chi_sq_loop counts benford tot chi (i # rest) =
     (case chi_sq_step_double counts benford tot chi i of
        Inl e \<Rightarrow> Inl e
      | Inr chi' \<Rightarrow> chi_sq_loop counts benford tot chi' rest)"

text \<open>The value of \<^verbatim>\<open>chi_sq\<close> after \<^verbatim>\<open>for i in range(9)\<close>. The variable starts as the \<^verbatim>\<open>int\<close>
  0, which the first addition, or else the subtraction of \<^verbatim>\<open>mid\<close>, converts to the double 0.\<close>

definition chi_sq_double :: "int list \<Rightarrow> double list \<Rightarrow> int \<Rightarrow> py_error + double" where
  "chi_sq_double counts benford tot = chi_sq_loop counts benford tot (Finite 0) [0..<9]"

text \<open>The last lines of the function:
  \<^verbatim>\<open>round(100 / (1 + math.exp(k * (chi_sq - mid))), 1)\<close>.\<close>

definition score_of_chi_sq :: "double \<Rightarrow> py_error + double" where
  "score_of_chi_sq chi =
     (let k = fl (1/10);
          mid = Finite 20
      in case math_exp_double (float_mul k (float_sub chi mid)) of
           Inl e \<Rightarrow> Inl e
         | Inr ex \<Rightarrow>
             (case float_div (Finite 100) (float_add (Finite 1) ex) of
                Inl e \<Rightarrow> Inl e
              | Inr s \<Rightarrow> Inr (float_round1 s)))"

definition chi_square_score_double ::
  "int list \<Rightarrow> double list \<Rightarrow> int \<Rightarrow> py_error + double" where
  "chi_square_score_double counts benford tot =
     (case chi_sq_double counts benford tot of
        Inl e \<Rightarrow> Inl e
      | Inr chi \<Rightarrow> score_of_chi_sq chi)"

text \<open>The values a sum of quotients of squares by positive numbers can take.\<close>

definition nonneg_double :: "double \<Rightarrow> bool" where
  "nonneg_double d =
     (case d of Finite x \<Rightarrow> 0 \<le> x \<and> x \<le> DBL_MAX | NInf \<Rightarrow> False | _ \<Rightarrow> True)"

text \<open>\<^verbatim>\<open>a <= b\<close> on floats, for comparing statistics and scores.\<close>

fun float_le :: "double \<Rightarrow> double \<Rightarrow> bool" where
  "float_le (Finite x) (Finite y) = (x \<le> y)"
| "float_le NaN b = False"
| "float_le a NaN = False"
| "float_le NInf b = True"
| "float_le a PInf = True"
| "float_le a b = False"

subsection \<open>Text: digit runs, whitespace\<close>

text \<open>\<^verbatim>\<open>\d\<close> on code points below 256 matches the ten ASCII digits.\<close>

definition is_digit :: "char \<Rightarrow> bool" where
  "is_digit c \<longleftrightarrow> c \<in> set ''0123456789''"

text \<open>\<^verbatim>\<open>re.findall(r"\d+", text)\<close>: the maximal runs of digits, left to right. \<open>cur\<close> is the
  run being read.\<close>

fun digit_runs :: "string \<Rightarrow> string \<Rightarrow> string list" where
  "digit_runs cur [] = (if cur = [] then [] else [cur])"
| "digit_runs cur (c # cs) =
     (if is_digit c then digit_runs (cur @ [c]) cs
      else if cur = [] then digit_runs [] cs
      else cur # digit_runs [] cs)"

definition findall_digits :: "string \<Rightarrow> string list" where
  "findall_digits text = digit_runs [] text"

text \<open>\<^verbatim>\<open>int(c)\<close> for a one-character string: the digit's value, \<^verbatim>\<open>ValueError\<close> otherwise.\<close>

definition int_of_char :: "char \<Rightarrow> py_error + int" where
  "int_of_char c = (if is_digit c then Inr (int (of_char c) - 48) else Inl ValueError)"

text \<open>\<^verbatim>\<open>str.isspace\<close> on code points below 256.\<close>

definition py_isspace :: "char \<Rightarrow> bool" where
  "py_isspace c \<longleftrightarrow> (of_char c :: nat) \<in> {9, 10, 11, 12, 13, 28, 29, 30, 31, 32, 133, 160}"

definition py_strip :: "string \<Rightarrow> string" where
  "py_strip s = rev (dropWhile py_isspace (rev (dropWhile py_isspace s)))"

subsection \<open>Counting first digits\<close>

text \<open>The loop \<^verbatim>\<open>for n in numbers\<close> of the Submit handler. \<^verbatim>\<open>n[0]\<close> raises \<^verbatim>\<open>IndexError\<close> on
  an empty token.\<close>

fun count_first_digits :: "int list \<Rightarrow> string list \<Rightarrow> py_error + int list" where
  "count_first_digits counts [] = Inr counts"
| "count_first_digits counts (n # ns) =
     (case n of
        [] \<Rightarrow> Inl IndexError
      | c # _ \<Rightarrow>
          if c \<noteq> CHR ''0'' then
            (case int_of_char c of
               Inl e \<Rightarrow> Inl e
             | Inr d \<Rightarrow>
                 if 1 \<le> d \<and> d \<le> 9
                 then count_first_digits (counts[nat (d - 1) := counts ! nat (d - 1) + 1]) ns
                 else count_first_digits counts ns)
          else count_first_digits counts ns)"

text \<open>\<^verbatim>\<open>observed = [c/total for c in counts]\<close>: true division raises on a zero total as
  soon as the list has an element.\<close>

definition observed_of :: "int list \<Rightarrow> int \<Rightarrow> py_error + real list" where
  "observed_of counts tot =
     (if counts \<noteq> [] \<and> tot = 0 then Inl ZeroDivisionError
      else Inr (map (\<lambda>c. real_of_int c / real_of_int tot) counts))"

subsection \<open>Leaderboard entries and application state\<close>

record entry =
  name :: string
  score :: real
  timestamp :: string

record app_state =
  leaderboard :: "entry list"
  csv_file :: "string option"

subsection \<open>The csv module, excel dialect\<close>

definition CR :: char where "CR = CHR 0x0D"
definition LF :: char where "LF = CHR 0x0A"
definition QUOTE :: char where "QUOTE = CHR 0x22"
definition DELIM :: char where "DELIM = CHR '',''"

text \<open>Writer, \<^verbatim>\<open>QUOTE_MINIMAL\<close>: a field is quoted when it holds the delimiter, the quote
  character or a character of the line terminator; a quote inside is doubled. A row
  whose only field is empty is written as two quotes.\<close>

definition csv_special :: "char \<Rightarrow> bool" where
  "csv_special c \<longleftrightarrow> c = DELIM \<or> c = QUOTE \<or> c = CR \<or> c = LF"

definition csv_escape :: "string \<Rightarrow> string" where
  "csv_escape f = concat (map (\<lambda>c. if c = QUOTE then [QUOTE, QUOTE] else [c]) f)"

definition csv_field :: "string \<Rightarrow> string" where
  "csv_field f =
     (if list_ex csv_special f then [QUOTE] @ csv_escape f @ [QUOTE] else f)"

fun join_fields :: "string list \<Rightarrow> string" where
  "join_fields [] = []"
| "join_fields [f] = f"
| "join_fields (f # g # fs) = f @ [DELIM] @ join_fields (g # fs)"

definition writerow :: "string list \<Rightarrow> string" where
  "writerow row =
     (if row = [[]] then [QUOTE, QUOTE, CR, LF]
      else join_fields (map csv_field row) @ [CR, LF])"

text \<open>Iterating a text file opened with \<^verbatim>\<open>newline=''\<close>: lines end at \<^verbatim>\<open>\n\<close>, \<^verbatim>\<open>\r\<close> or
  \<^verbatim>\<open>\r\n\<close> and keep their terminator.\<close>

fun file_lines :: "string \<Rightarrow> string \<Rightarrow> string list" where
  "file_lines cur [] = (if cur = [] then [] else [cur])"
| "file_lines cur [c] =
     [cur @ [c]]"
| "file_lines cur (c # d # ds) =
     (if c = LF then (cur @ [c]) # file_lines [] (d # ds)
      else if c = CR then
        (if d = LF then (cur @ [c, d]) # file_lines [] ds
         else (cur @ [c]) # file_lines [] (d # ds))
      else file_lines (cur @ [c]) (d # ds))"

text \<open>Reader: the parser states of \<^verbatim>\<open>_csv.c\<close> that the excel dialect can reach (it has no
  escape character).\<close>

datatype parse_state =
    START_RECORD
  | START_FIELD
  | IN_FIELD
  | IN_QUOTED_FIELD
  | QUOTE_IN_QUOTED_FIELD
  | EAT_CRNL

record reader =
  r_state :: parse_state
  r_fields :: "string list"
  r_field :: string

text \<open>What the parser is fed: a character of the line, or the end-of-line mark sent
  after each line.\<close>

datatype event = Ch char | EOL

definition field_limit :: nat where
  "field_limit = 131072"

definition parse_reset :: reader where
  "parse_reset = \<lparr>r_state = START_RECORD, r_fields = [], r_field = []\<rparr>"

definition parse_save_field :: "reader \<Rightarrow> reader" where
  "parse_save_field r = r\<lparr>r_fields := r_fields r @ [r_field r], r_field := []\<rparr>"

definition parse_add_char :: "reader \<Rightarrow> char \<Rightarrow> py_error + reader" where
  "parse_add_char r c =
     (if length (r_field r) \<ge> field_limit then Inl CsvError
      else Inr (r\<lparr>r_field := r_field r @ [c]\<rparr>))"

definition is_newline :: "event \<Rightarrow> bool" where
  "is_newline ev \<longleftrightarrow> ev = Ch LF \<or> ev = Ch CR"

text \<open>\<^verbatim>\<open>case START_FIELD\<close> of \<^verbatim>\<open>parse_process_char\<close>.\<close>

definition process_start_field :: "reader \<Rightarrow> event \<Rightarrow> py_error + reader" where
  "process_start_field r ev =
     (case ev of
        EOL \<Rightarrow> Inr ((parse_save_field r)\<lparr>r_state := START_RECORD\<rparr>)
      | Ch c \<Rightarrow>
          if c = LF \<or> c = CR then Inr ((parse_save_field r)\<lparr>r_state := EAT_CRNL\<rparr>)
          else if c = QUOTE then Inr (r\<lparr>r_state := IN_QUOTED_FIELD\<rparr>)
          else if c = DELIM then Inr (parse_save_field r)
          else (case parse_add_char r c of
                  Inl e \<Rightarrow> Inl e
                | Inr r' \<Rightarrow> Inr (r'\<lparr>r_state := IN_FIELD\<rparr>)))"

text \<open>\<^verbatim>\<open>parse_process_char\<close>, non-strict. In \<^verbatim>\<open>START_RECORD\<close> a normal character falls
  through to \<^verbatim>\<open>START_FIELD\<close>.\<close>

definition parse_process_char :: "reader \<Rightarrow> event \<Rightarrow> py_error + reader" where
  "parse_process_char r ev =
     (case r_state r of
        START_RECORD \<Rightarrow>
          if ev = EOL then Inr r
          else if is_newline ev then Inr (r\<lparr>r_state := EAT_CRNL\<rparr>)
          else process_start_field (r\<lparr>r_state := START_FIELD\<rparr>) ev
      | START_FIELD \<Rightarrow> process_start_field r ev
      | IN_FIELD \<Rightarrow>
          (case ev of
             EOL \<Rightarrow> Inr ((parse_save_field r)\<lparr>r_state := START_RECORD\<rparr>)
           | Ch c \<Rightarrow>
               if c = LF \<or> c = CR then Inr ((parse_save_field r)\<lparr>r_state := EAT_CRNL\<rparr>)
               else if c = DELIM then Inr ((parse_save_field r)\<lparr>r_state := START_FIELD\<rparr>)
               else parse_add_char r c)
      | IN_QUOTED_FIELD \<Rightarrow>
          (case ev of
             EOL \<Rightarrow> Inr r
           | Ch c \<Rightarrow>
               if c = QUOTE then Inr (r\<lparr>r_state := QUOTE_IN_QUOTED_FIELD\<rparr>)
               else parse_add_char r c)
      | QUOTE_IN_QUOTED_FIELD \<Rightarrow>
          (case ev of
             EOL \<Rightarrow> Inr ((parse_save_field r)\<lparr>r_state := START_RECORD\<rparr>)
           | Ch c \<Rightarrow>
               if c = QUOTE then
                 (case parse_add_char r c of
                    Inl e \<Rightarrow> Inl e
                  | Inr r' \<Rightarrow> Inr (r'\<lparr>r_state := IN_QUOTED_FIELD\<rparr>))
               else if c = DELIM then Inr ((parse_save_field r)\<lparr>r_state := START_FIELD\<rparr>)
               else if c = LF \<or> c = CR then Inr ((parse_save_field r)\<lparr>r_state := EAT_CRNL\<rparr>)
               else (case parse_add_char r c of
                       Inl e \<Rightarrow> Inl e
                     | Inr r' \<Rightarrow> Inr (r'\<lparr>r_state := IN_FIELD\<rparr>)))
      | EAT_CRNL \<Rightarrow>
          if is_newline ev then Inr r
          else if ev = EOL then Inr (r\<lparr>r_state := START_RECORD\<rparr>)
          else Inl CsvError)"

text \<open>Feeding the characters of one line, then the end-of-line mark.\<close>

fun feed :: "reader \<Rightarrow> event list \<Rightarrow> py_error + reader" where
  "feed r [] = Inr r"
| "feed r (ev # evs) =
     (case parse_process_char r ev of Inl e \<Rightarrow> Inl e | Inr r' \<Rightarrow> feed r' evs)"

definition feed_line :: "reader \<Rightarrow> string \<Rightarrow> py_error + reader" where
  "feed_line r l = feed r (map Ch l @ [EOL])"

text \<open>The rows that iterating \<^verbatim>\<open>csv.reader(f)\<close> yields, in order; an error ends the
  iteration and is the last item. A row is complete when the parser is back in
  \<^verbatim>\<open>START_RECORD\<close> after a line; the parser is then reset for the next row. At the end of
  the input a field left open is saved as the last row.\<close>

fun csv_rows :: "reader \<Rightarrow> string list \<Rightarrow> (py_error + string list) list" where
  "csv_rows r [] =
     (if r_field r \<noteq> [] \<or> r_state r = IN_QUOTED_FIELD
      then [Inr (r_fields (parse_save_field r))] else [])"
| "csv_rows r (l # ls) =
     (case feed_line r l of
        Inl e \<Rightarrow> [Inl e]
      | Inr r' \<Rightarrow>
          if r_state r' = START_RECORD then Inr (r_fields r') # csv_rows parse_reset ls
          else csv_rows r' ls)"

definition csv_reader :: "string \<Rightarrow> (py_error + string list) list" where
  "csv_reader content = csv_rows parse_reset (file_lines [] content)"

subsection \<open>load_leaderboard and save_leaderboard\<close>

text \<open>The loop \<^verbatim>\<open>for row in reader\<close>: unpacking a row that has not exactly three fields
  raises \<^verbatim>\<open>ValueError\<close>, and so does \<^verbatim>\<open>float\<close> on text that is no numeral (\<open>flt\<close> gives
  \<open>None\<close>).\<close>

fun load_rows ::
  "(string \<Rightarrow> real option) \<Rightarrow> (py_error + string list) list \<Rightarrow> entry list \<Rightarrow> py_error + entry list"
where
  "load_rows flt [] data = Inr data"
| "load_rows flt (Inl e # rest) data = Inl e"
| "load_rows flt (Inr row # rest) data =
     (case row of
        [n, s, t] \<Rightarrow>
          (case flt s of
             None \<Rightarrow> Inl ValueError
           | Some x \<Rightarrow> load_rows flt rest (data @ [\<lparr>name = n, score = x, timestamp = t\<rparr>]))
      | _ \<Rightarrow> Inl ValueError)"

definition load_leaderboard :: "(string \<Rightarrow> real option) \<Rightarrow> string option \<Rightarrow> py_error + entry list" where
  "load_leaderboard flt file =
     (case file of
        None \<Rightarrow> Inr []
      | Some content \<Rightarrow> load_rows flt (csv_reader content) [])"

text \<open>Start of a session: \<^verbatim>\<open>st.session_state.leaderboard = load_leaderboard()\<close>.\<close>

definition start_session :: "(string \<Rightarrow> real option) \<Rightarrow> string option \<Rightarrow> py_error + app_state" where
  "start_session flt file =
     (case load_leaderboard flt file of
        Inl e \<Rightarrow> Inl e
      | Inr board \<Rightarrow> Inr \<lparr>leaderboard = board, csv_file = file\<rparr>)"

text \<open>The file is opened with \<^verbatim>\<open>"w"\<close>: the result is its whole new content.\<close>

definition save_leaderboard :: "(real \<Rightarrow> string) \<Rightarrow> entry list \<Rightarrow> string" where
  "save_leaderboard repr board =
     concat (map (\<lambda>e. writerow [name e, repr (score e), timestamp e]) board)"

subsection \<open>Submit handler\<close>

datatype halt = Missing_name | Too_few_numbers

datatype outcome =
    Halted halt
  | Raised py_error
  | Scored real
  | Done
  | Not_offered

text \<open>\<^verbatim>\<open>sorted(board, key=lambda x: x["score"], reverse=True)\<close>: a stable sort, descending.\<close>

definition sorted_by_score :: "entry list \<Rightarrow> entry list" where
  "sorted_by_score board = sort_key (\<lambda>e. - score e) board"

definition submit ::
  "(real \<Rightarrow> string) \<Rightarrow> string \<Rightarrow> string \<Rightarrow> string \<Rightarrow> app_state \<Rightarrow> outcome \<times> app_state"
where
  "submit repr username data_input now st =
     (if py_strip username = [] then (Halted Missing_name, st)
      else
        let numbers = findall_digits data_input in
        if length numbers < 5 then (Halted Too_few_numbers, st)
        else
          case count_first_digits (replicate 9 0) numbers of
            Inl e \<Rightarrow> (Raised e, st)
          | Inr counts \<Rightarrow>
              let tot = sum_list counts in
              case observed_of counts tot of
                Inl e \<Rightarrow> (Raised e, st)
              | Inr observed \<Rightarrow>
                  case chi_square_score counts BENFORD tot of
                    Inl e \<Rightarrow> (Raised e, st)
                  | Inr sc \<Rightarrow>
                      let board = sorted_by_score
                            (leaderboard st @ [\<lparr>name = username, score = sc, timestamp = now\<rparr>])
                      in (Scored sc,
                          \<lparr>leaderboard = board,
                           csv_file = Some (save_leaderboard repr board)\<rparr>))"

subsection \<open>Admin controls\<close>

text \<open>The controls are under \<^verbatim>\<open>if st.session_state.leaderboard:\<close>; with an empty leaderboard
  there is no button to press (\<open>Not_offered\<close>). The index is
  \<^verbatim>\<open>next(i for i, e in enumerate(board) if e["name"] == selected_name)\<close>.\<close>

fun index_of_name :: "string \<Rightarrow> entry list \<Rightarrow> nat option" where
  "index_of_name sel [] = None"
| "index_of_name sel (e # es) =
     (if name e = sel then Some 0 else map_option Suc (index_of_name sel es))"

definition update_name ::
  "(real \<Rightarrow> string) \<Rightarrow> string \<Rightarrow> string \<Rightarrow> app_state \<Rightarrow> outcome \<times> app_state"
where
  "update_name repr selected_name new_name st =
     (if leaderboard st = [] then (Not_offered, st)
      else
        case index_of_name selected_name (leaderboard st) of
          None \<Rightarrow> (Raised StopIteration, st)
        | Some i \<Rightarrow>
            let board = (leaderboard st)[i := (leaderboard st ! i)\<lparr>name := new_name\<rparr>]
            in (Done, \<lparr>leaderboard = board, csv_file = Some (save_leaderboard repr board)\<rparr>))"

definition delete_entry ::
  "(real \<Rightarrow> string) \<Rightarrow> string \<Rightarrow> app_state \<Rightarrow> outcome \<times> app_state"
where
  "delete_entry repr selected_name st =
     (if leaderboard st = [] then (Not_offered, st)
      else
        case index_of_name selected_name (leaderboard st) of
          None \<Rightarrow> (Raised StopIteration, st)
        | Some i \<Rightarrow>
            let board = take i (leaderboard st) @ drop (Suc i) (leaderboard st)
            in (Done, \<lparr>leaderboard = board, csv_file = Some (save_leaderboard repr board)\<rparr>))"

subsection \<open>Sequences of user actions\<close>

datatype action =
    Submit string string string
  | Update_name string string
  | Delete_entry string

fun perform :: "(real \<Rightarrow> string) \<Rightarrow> action \<Rightarrow> app_state \<Rightarrow> outcome \<times> app_state" where
  "perform repr (Submit username data_input now) st = submit repr username data_input now st"
| "perform repr (Update_name selected_name new_name) st = update_name repr selected_name new_name st"
| "perform repr (Delete_entry selected_name) st = delete_entry repr selected_name st"

fun run :: "(real \<Rightarrow> string) \<Rightarrow> action list \<Rightarrow> app_state \<Rightarrow> app_state" where
  "run repr [] st = st"
| "run repr (a # as) st = run repr as (snd (perform repr a st))"

definition score_descending :: "entry list \<Rightarrow> bool" where
  "score_descending board \<longleftrightarrow> sorted_wrt (\<lambda>a b. score a \<ge> score b) board"

subsection \<open>Specification-side notions for the histogram\<close>

text \<open>A token as \<^verbatim>\<open>re.findall\<close> returns it: a non-empty run of digits.\<close>

definition token_ok :: "string \<Rightarrow> bool" where
  "token_ok n \<longleftrightarrow> n \<noteq> [] \<and> list_all is_digit n"

text \<open>The number of tokens whose first character is the digit \<open>i + 1\<close> (code point
  \<open>49 + i\<close>).\<close>

definition tally :: "string list \<Rightarrow> nat \<Rightarrow> int" where
  "tally ns i = int (length (filter (\<lambda>n. hd n = char_of (49 + i)) ns))"

subsection \<open>Specification-side notions for the leaderboard\<close>

text \<open>Position \<open>i\<close> holds the first entry, in display order, whose name is \<open>sel\<close>.\<close>

definition first_match :: "string \<Rightarrow> entry list \<Rightarrow> nat \<Rightarrow> bool" where
  "first_match sel board i \<longleftrightarrow>
     i < length board \<and> name (board ! i) = sel \<and> list_all (\<lambda>e. name e \<noteq> sel) (take i board)"

text \<open>What one action may do to the sequence: nothing; add one entry, every group of
  equal scores keeping its order with the new entry last in its group; rename one entry
  in place; remove one entry.\<close>

definition order_kept :: "entry list \<Rightarrow> entry list \<Rightarrow> bool" where
  "order_kept before after \<longleftrightarrow>
     after = before
     \<or> (\<exists>e. \<forall>s. filter (\<lambda>x. score x = s) after = filter (\<lambda>x. score x = s) (before @ [e]))
     \<or> (\<exists>i n. after = before[i := (before ! i)\<lparr>name := n\<rparr>])
     \<or> (\<exists>i. after = take i before @ drop (Suc i) before)"

text \<open>An item of the reader is a row of three fields that gives the entry \<open>e\<close>.\<close>

definition row_of :: "(string \<Rightarrow> real option) \<Rightarrow> py_error + string list \<Rightarrow> entry \<Rightarrow> bool" where
  "row_of flt item e \<longleftrightarrow>
     (\<exists>s. item = Inr [name e, s, timestamp e] \<and> flt s = Some (score e))"

text \<open>An entry whose three fields are within the reader's field size limit and whose
  score is read back by \<open>flt\<close> from the text \<open>repr\<close> gives it, as \<^verbatim>\<open>float(str(x)) == x\<close>
  for a Python float.\<close>

definition storable :: "(real \<Rightarrow> string) \<Rightarrow> (string \<Rightarrow> real option) \<Rightarrow> entry \<Rightarrow> bool" where
  "storable repr flt e \<longleftrightarrow>
     length (name e) \<le> field_limit \<and> length (repr (score e)) \<le> field_limit
     \<and> length (timestamp e) \<le> field_limit
     \<and> flt (repr (score e)) = Some (score e)"

text \<open>The rows the reader yields from the text \<open>rest\<close> when it stands at the start of a
  line with the parser in state \<open>s\<close>.\<close>

definition at_state :: "reader \<Rightarrow> string \<Rightarrow> (py_error + string list) list" where
  "at_state s rest = csv_rows s (file_lines [] rest)"

subsection \<open>Sample data\<close>

text \<open>\<^verbatim>\<open>str\<close> and \<^verbatim>\<open>float\<close> at the scores of the sample leaderboard.\<close>

definition sample_repr :: "real \<Rightarrow> string" where
  "sample_repr x = (if x = 881/10 then ''88.1'' else if x = 50 then ''50.0'' else ''0.0'')"

definition sample_float :: "string \<Rightarrow> real option" where
  "sample_float s =
     (if s = ''88.1'' then Some (881/10)
      else if s = ''50.0'' then Some 50
      else if s = ''0.0'' then Some 0
      else None)"

definition john :: entry where
  "john = \<lparr>name = ''Doe, John'', score = 881/10, timestamp = ''2024-01-01 10:00:00''\<rparr>"

definition bob :: entry where
  "bob = \<lparr>name = ''Bob'', score = 50, timestamp = ''2024-01-02 11:30:00''\<rparr>"

definition john2 :: entry where
  "john2 = \<lparr>name = ''Doe, John'', score = 50, timestamp = ''2024-01-03 09:15:00''\<rparr>"

text \<open>An entry whose name holds a quote, line breaks and a comma.\<close>

definition tricky :: entry where
  "tricky = \<lparr>name = [CHR ''a'', QUOTE, CR, LF, DELIM, CHR ''b'', CR], score = 0,
              timestamp = ''2024-01-06 07:45:00''\<rparr>"

definition sample_state :: app_state where
  "sample_state = \<lparr>leaderboard = [john, bob, john2], csv_file = None\<rparr>"

text \<open>Histograms for the scoring theorems: the Benford proportions of the totals 1000
  and \<open>10\<^sup>3\<^sup>1\<close>, and counts of total \<open>10\<^sup>3\<^sup>1\<close> that are converted to the doubles
  \<^verbatim>\<open>benford[i] * total\<close>.\<close>

definition match_1000 :: "int list" where
  "match_1000 = [301, 176, 125, 97, 79, 67, 58, 51, 46]"

definition match_1e31 :: "int list" where
  "match_1e31 =
     [3010000000000000000000000000000,
      1760000000000000000000000000000,
      1250000000000000000000000000000,
      970000000000000000000000000000,
      790000000000000000000000000000,
      670000000000000000000000000000,
      580000000000000000000000000000,
      510000000000000000000000000000,
      460000000000000000000000000000]"

definition near_1e31 :: "int list" where
  "near_1e31 =
     [3010000000000000282217952365772,
      1759999999999999933665948100198,
      1249999999999999980820769852622,
      970000000000000027732335394816,
      789999999999999934081110376448,
      669999999999999965471952601088,
      579999999999999989015084269568,
      509999999999999936957664722944,
      459999999999999950037182316544]"

subsection \<open>Scoring lemmas, exact arithmetic\<close>

lemma rhe_bounds: "\<lfloor>x\<rfloor> \<le> round_half_even x \<and> round_half_even x \<le> \<lfloor>x\<rfloor> + 1"
  unfolding round_half_even_def Let_def by auto

lemma rhe_mono: "x \<le> y \<Longrightarrow> round_half_even x \<le> round_half_even y"
proof -
  assume xy: "x \<le> y"
  have fl: "\<lfloor>x\<rfloor> \<le> \<lfloor>y\<rfloor>" using xy by (rule floor_mono)
  show ?thesis
  proof (cases "\<lfloor>x\<rfloor> = \<lfloor>y\<rfloor>")
    case True
    then show ?thesis using xy unfolding round_half_even_def Let_def by auto
  next
    case False
    then have "\<lfloor>x\<rfloor> + 1 \<le> \<lfloor>y\<rfloor>" using fl by linarith
    then show ?thesis using rhe_bounds[of x] rhe_bounds[of y] by linarith
  qed
qed

lemma rhe_unique:
  "of_int n - 1/2 < x \<Longrightarrow> x < of_int n + 1/2 \<Longrightarrow> round_half_even x = n"
proof -
  assume a: "of_int n - 1/2 < x" and b: "x < of_int n + 1/2"
  have "\<lfloor>x\<rfloor> = n \<or> \<lfloor>x\<rfloor> = n - 1"
  proof -
    have "of_int (n - 1) \<le> x" using a by simp
    then have "n - 1 \<le> \<lfloor>x\<rfloor>" by (simp only: le_floor_iff)
    moreover have "x < of_int n + 1" using b by simp
    then have "\<lfloor>x\<rfloor> \<le> n" by (simp only: floor_le_iff)
    ultimately show ?thesis by linarith
  qed
  then show ?thesis
  proof
    assume f: "\<lfloor>x\<rfloor> = n"
    then have "x - of_int \<lfloor>x\<rfloor> < 1/2" using b by simp
    then show ?thesis using f by (simp add: round_half_even_def Let_def)
  next
    assume f: "\<lfloor>x\<rfloor> = n - 1"
    then have "x - of_int \<lfloor>x\<rfloor> > 1/2" using a by simp
    then show ?thesis using f by (simp add: round_half_even_def Let_def)
  qed
qed

lemma rhe_of_int: "round_half_even (of_int n) = n"
  by (rule rhe_unique) simp_all

lemma py_round1_mono: "x \<le> y \<Longrightarrow> py_round1 x \<le> py_round1 y"
  unfolding py_round1_def using rhe_mono [of "x * 10" "y * 10"] by (simp add: divide_right_mono)

lemma py_round1_range:
  assumes "0 \<le> x" "x \<le> 100"
  shows "0 \<le> py_round1 x \<and> py_round1 x \<le> 100"
proof -
  have "round_half_even (of_int 0) \<le> round_half_even (x * 10)"
    by (rule rhe_mono) (use assms in simp)
  moreover have "round_half_even (x * 10) \<le> round_half_even (of_int 1000)"
    by (rule rhe_mono) (use assms in simp)
  ultimately have "0 \<le> round_half_even (x * 10) \<and> round_half_even (x * 10) \<le> 1000"
    by (simp only: rhe_of_int)
  then show ?thesis unfolding py_round1_def by simp
qed

text \<open>Bounds on \<open>exp (- 2)\<close> that place \<open>100 / (1 + exp (- 2))\<close> strictly between 88.05 and
  88.15: a partial sum of the series of \<open>exp 2\<close> from above, repeated squaring of
  \<open>1 - 1/256 \<le> exp (- 1/256)\<close> from below.\<close>

lemma exp2_lower: "(738/100::real) \<le> exp 2"
proof -
  have "(\<Sum>n<8. inverse (fact n) * (2::real)^n) \<le> (\<Sum>n. inverse (fact n) * 2^n)"
    by (rule sum_le_suminf [OF summable_exp]) auto
  also have "\<dots> = exp 2" by (simp add: exp_def)
  finally have "(\<Sum>n<8. inverse (fact n) * (2::real)^n) \<le> exp 2" .
  moreover have "(\<Sum>n<8. inverse (fact n) * (2::real)^n) = 155/21"
    by (simp add: eval_nat_numeral lessThan_Suc)
  ultimately show ?thesis by simp
qed

lemma exp_double_lower:
  fixes b c x :: real
  assumes "0 \<le> b" "b \<le> exp x" "c \<le> b * b"
  shows "c \<le> exp (2 * x)"
proof -
  have "b * b \<le> exp x * exp x" using assms(1,2) by (intro mult_mono) auto
  also have "\<dots> = exp (2 * x)" by (simp add: exp_double power2_eq_square)
  finally show ?thesis using assms(3) by linarith
qed

lemma expm2_lower: "(1348/10000::real) \<le> exp (- 2)"
proof -
  have s0: "(255/256::real) \<le> exp (- (1/256))"
    using exp_ge_add_one_self [of "- (1/256)::real"] by simp
  have s1: "(992202758/1000000000::real) \<le> exp (2 * - (1/256))"
    by (rule exp_double_lower [OF _ s0]) simp_all
  have s2: "(984466312/1000000000::real) \<le> exp (2 * (2 * - (1/256)))"
    by (rule exp_double_lower [OF _ s1]) simp_all
  have s3: "(969173919/1000000000::real) \<le> exp (2 * (2 * (2 * - (1/256))))"
    by (rule exp_double_lower [OF _ s2]) simp_all
  have s4: "(939298085/1000000000::real) \<le> exp (2 * (2 * (2 * (2 * - (1/256)))))"
    by (rule exp_double_lower [OF _ s3]) simp_all
  have s5: "(882280892/1000000000::real) \<le> exp (2 * (2 * (2 * (2 * (2 * - (1/256))))))"
    by (rule exp_double_lower [OF _ s4]) simp_all
  have s6: "(778419572/1000000000::real)
              \<le> exp (2 * (2 * (2 * (2 * (2 * (2 * - (1/256)))))))"
    by (rule exp_double_lower [OF _ s5]) simp_all
  have s7: "(605937030/1000000000::real)
              \<le> exp (2 * (2 * (2 * (2 * (2 * (2 * (2 * - (1/256))))))))"
    by (rule exp_double_lower [OF _ s6]) simp_all
  have s8: "(367159684/1000000000::real)
              \<le> exp (2 * (2 * (2 * (2 * (2 * (2 * (2 * (2 * - (1/256)))))))))"
    by (rule exp_double_lower [OF _ s7]) simp_all
  have s9: "(134806233/1000000000::real)
              \<le> exp (2 * (2 * (2 * (2 * (2 * (2 * (2 * (2 * (2 * - (1/256))))))))))"
    by (rule exp_double_lower [OF _ s8]) simp_all
  then show ?thesis by simp
qed

lemma expm2_upper: "exp (- 2) \<le> (1356/10000::real)"
proof -
  have "exp (- 2) * (738/100) \<le> exp (- 2) * exp (2::real)"
    by (rule mult_left_mono [OF exp2_lower]) simp
  also have "\<dots> = 1" by (simp add: exp_add [symmetric])
  finally show ?thesis by simp
qed

lemma upt_9: "[0..<9] = [0, 1, 2, 3, 4, 5, 6, 7, 8::nat]"
  by (simp add: upt_rec)




lemma exp_overflow: "2071 \<le> x \<Longrightarrow> DBL_MAX < exp x"
proof -
  assume x: "2071 \<le> x"
  have "(2::real) \<le> exp 1" using exp_ge_add_one_self [of "1::real"] by simp
  then have "(2::real) ^ 2071 \<le> exp 1 ^ 2071" by (intro power_mono) auto
  also have "\<dots> = exp (of_nat 2071 * 1)" by (simp only: exp_of_nat_mult)
  also have "\<dots> \<le> exp x" using x by simp
  finally have "(2::real) ^ 2071 \<le> exp x" .
  moreover have "DBL_MAX < (2::real) ^ 1024" by (simp add: DBL_MAX_def)
  moreover have "(2::real) ^ 1024 \<le> 2 ^ 2071" by (rule power_increasing) simp_all
  ultimately show ?thesis by linarith
qed

lemma chi_sq_all_nines: "chi_sq [0, 0, 0, 0, 0, 0, 0, 0, 1000] BENFORD 1000 = 477000/23"
  by (simp add: chi_sq_def upt_9 chi_sq_step_def BENFORD_def)

lemma length_BENFORD: "length BENFORD = 9"
  by (simp add: BENFORD_def)

lemma score_all_nines:
  "chi_square_score [0, 0, 0, 0, 0, 0, 0, 0, 1000] BENFORD 1000 = Inl OverflowError"
proof -
  have "DBL_MAX < exp (1/10 * (477000/23 - 20))"
    by (rule exp_overflow) simp
  then have "math_exp (1/10 * (477000/23 - 20)) = Inl OverflowError"
    by (simp only: math_exp_def if_True)
  then show ?thesis
    by (simp add: chi_square_score_def chi_sq_all_nines Let_def length_BENFORD)
qed

lemma math_exp_nonneg: "math_exp x = Inr ex \<Longrightarrow> 0 \<le> ex"
  by (auto simp: math_exp_def split: if_splits)

text \<open>Whenever \<open>chi_square_score\<close> returns, the score is between 0 and 100.\<close>

lemma score_range:
  assumes "chi_square_score counts benford tot = Inr s"
  shows "0 \<le> s \<and> s \<le> 100"
proof -
  obtain ex where ex: "math_exp (1/10 * (chi_sq counts benford tot - 20)) = Inr ex"
    and s: "s = py_round1 (100 / (1 + ex))"
    using assms by (auto simp: chi_square_score_def Let_def split: sum.splits if_splits)
  have "0 \<le> ex" by (rule math_exp_nonneg [OF ex])
  then have "0 \<le> 100 / (1 + ex) \<and> 100 / (1 + ex) \<le> 100"
    by (simp add: divide_le_eq)
  then show ?thesis unfolding s using py_round1_range by blast
qed

subsection \<open>Rounding to the nearest double\<close>

text \<open>Rounding to the nearest integer, ties to even: what characterises the result, its
  symmetry, and the bound \<open>\<bar>n\<bar> \<le> 2 * \<bar>z\<bar>\<close>.\<close>

lemma rhe_spec:
  "\<bar>x - of_int (round_half_even x)\<bar> < 1/2
   \<or> (\<bar>x - of_int (round_half_even x)\<bar> = 1/2 \<and> even (round_half_even x))"
proof -
  let ?f = "\<lfloor>x\<rfloor>"
  have f: "of_int ?f \<le> x" "x < of_int ?f + 1" by linarith+
  consider "x - of_int ?f < 1/2" | "x - of_int ?f > 1/2" | "x - of_int ?f = 1/2" by linarith
  then show ?thesis
  proof cases
    case 1
    then have "round_half_even x = ?f" by (simp add: round_half_even_def Let_def)
    then show ?thesis using 1 f by simp
  next
    case 2
    then have "round_half_even x = ?f + 1" by (simp add: round_half_even_def Let_def)
    then show ?thesis using 2 f by simp
  next
    case 3
    show ?thesis
    proof (cases "even ?f")
      case True
      then have "round_half_even x = ?f" using 3 by (simp add: round_half_even_def Let_def)
      then show ?thesis using 3 True by simp
    next
      case False
      then have "round_half_even x = ?f + 1" using 3 by (simp add: round_half_even_def Let_def)
      then show ?thesis using 3 False by simp
    qed
  qed
qed

lemma rhe_char:
  assumes "\<bar>x - of_int n\<bar> < 1/2 \<or> (\<bar>x - of_int n\<bar> = 1/2 \<and> even n)"
  shows "round_half_even x = n"
proof -
  let ?r = "round_half_even x"
  have s: "\<bar>x - of_int ?r\<bar> < 1/2 \<or> (\<bar>x - of_int ?r\<bar> = 1/2 \<and> even ?r)" by (rule rhe_spec)
  have "\<bar>of_int ?r - (of_int n :: real)\<bar> \<le> 1" using assms s by linarith
  then have "\<bar>?r - n\<bar> \<le> 1" by (metis of_int_diff of_int_abs of_int_le_1_iff)
  then consider "?r = n" | "?r = n + 1" | "?r = n - 1" by linarith
  then show ?thesis
  proof cases
    case 1
    then show ?thesis .
  next
    case 2
    then have "of_int ?r = (of_int n :: real) + 1" by simp
    then have "\<bar>x - of_int n\<bar> = 1/2" "\<bar>x - of_int ?r\<bar> = 1/2" using assms s by linarith+
    then have "even n" "even ?r" using assms s by auto
    then show ?thesis using 2 by simp
  next
    case 3
    then have "of_int ?r = (of_int n :: real) - 1" by simp
    then have "\<bar>x - of_int n\<bar> = 1/2" "\<bar>x - of_int ?r\<bar> = 1/2" using assms s by linarith+
    then have "even n" "even ?r" using assms s by auto
    then show ?thesis using 3 by simp
  qed
qed

lemma rhe_minus: "round_half_even (- x) = - round_half_even x"
proof (rule rhe_char)
  have "\<bar>- x - of_int (- round_half_even x)\<bar> = \<bar>x - of_int (round_half_even x)\<bar>" by simp
  then show "\<bar>- x - of_int (- round_half_even x)\<bar> < 1/2
     \<or> (\<bar>- x - of_int (- round_half_even x)\<bar> = 1/2 \<and> even (- round_half_even x))"
    using rhe_spec [of x] by simp
qed

lemma rhe_abs_le: "\<bar>real_of_int (round_half_even z)\<bar> \<le> 2 * \<bar>z\<bar>"
proof (cases "\<bar>z\<bar> < 1/2")
  case True
  then have "round_half_even z = 0" by (intro rhe_unique) (simp_all add: abs_less_iff)
  then show ?thesis by simp
next
  case False
  moreover have "\<bar>z - of_int (round_half_even z)\<bar> \<le> 1/2" using rhe_spec [of z] by linarith
  ultimately show ?thesis by linarith
qed

text \<open>The binade of a real and the spacing of the doubles in it.\<close>

lemma log2_bounds:
  assumes "0 < y"
  shows "2 powi \<lfloor>log 2 y\<rfloor> \<le> y" "y < 2 powi (\<lfloor>log 2 y\<rfloor> + 1)"
proof -
  let ?e = "\<lfloor>log 2 y\<rfloor>"
  have a: "(2::real) powr real_of_int ?e = 2 powi ?e"
    by (rule powr_real_of_int') simp_all
  have b: "(2::real) powr (real_of_int ?e + 1) = 2 powi (?e + 1)"
    using powr_real_of_int' [of "2::real" "?e + 1"] by simp
  have "(2::real) powr real_of_int ?e \<le> y \<and> y < 2 powr (real_of_int ?e + 1)"
    using floor_log_eq_powr_iff [of y 2 ?e] assms by simp
  then show "2 powi ?e \<le> y" "y < 2 powi (?e + 1)" by (simp_all only: a b)
qed

lemma ulp_exponent_eq:
  assumes "2 powi e \<le> \<bar>x\<bar>" "\<bar>x\<bar> < 2 powi (e + 1)"
  shows "ulp_exponent x = max (e - 52) (- 1074)"
proof -
  have pos: "0 < \<bar>x\<bar>" using assms(1) by (smt (verit) zero_less_power_int)
  have a: "(2::real) powr real_of_int e = 2 powi e"
    by (rule powr_real_of_int') simp_all
  have b: "(2::real) powr (real_of_int e + 1) = 2 powi (e + 1)"
    using powr_real_of_int' [of "2::real" "e + 1"] by simp
  have "(2::real) powr real_of_int e \<le> \<bar>x\<bar> \<and> \<bar>x\<bar> < 2 powr (real_of_int e + 1)"
    using assms by (simp only: a b)
  then have "\<lfloor>log 2 \<bar>x\<bar>\<rfloor> = e"
    using floor_log_eq_powr_iff [of "\<bar>x\<bar>" 2 e] pos by simp
  then show ?thesis by (simp add: ulp_exponent_def)
qed

lemma ulp_exponent_ge: "- 1074 \<le> ulp_exponent x"
  by (simp add: ulp_exponent_def)

lemma ulp_exponent_minus: "ulp_exponent (- x) = ulp_exponent x"
  by (simp add: ulp_exponent_def)

lemma ulp_exponent_le:
  assumes "x \<noteq> 0" "\<bar>x\<bar> < 2 powi (k + 53)" "- 1074 \<le> k"
  shows "ulp_exponent x \<le> k"
proof -
  have "2 powi \<lfloor>log 2 \<bar>x\<bar>\<rfloor> \<le> \<bar>x\<bar>" using log2_bounds(1) [of "\<bar>x\<bar>"] assms(1) by simp
  then have lt: "(2::real) powi \<lfloor>log 2 \<bar>x\<bar>\<rfloor> < 2 powi (k + 53)" using assms(2) by linarith
  have "\<lfloor>log 2 \<bar>x\<bar>\<rfloor> < k + 53"
  proof (rule ccontr)
    assume "\<not> \<lfloor>log 2 \<bar>x\<bar>\<rfloor> < k + 53"
    then have "k + 53 \<le> \<lfloor>log 2 \<bar>x\<bar>\<rfloor>" by simp
    then have "(2::real) powi (k + 53) \<le> 2 powi \<lfloor>log 2 \<bar>x\<bar>\<rfloor>"
      by (intro power_int_increasing) simp_all
    then show False using lt by linarith
  qed
  then show ?thesis using assms(3) by (simp add: ulp_exponent_def)
qed

lemma ulp_exponent_mono:
  assumes "0 < x" "x \<le> y"
  shows "ulp_exponent x \<le> ulp_exponent y"
proof -
  have "log 2 x \<le> log 2 y" using assms by simp
  then have "\<lfloor>log 2 x\<rfloor> \<le> \<lfloor>log 2 y\<rfloor>" by (rule floor_mono)
  then show ?thesis using assms by (simp add: ulp_exponent_def)
qed

text \<open>The value of \<open>rnd\<close> at a given \<open>x\<close>: a multiple \<open>y\<close> of the spacing in the binade of \<open>x\<close>
  that is within half a spacing of \<open>x\<close>, the multiplier being even in case of a tie.\<close>

lemma rnd_0: "rnd 0 = 0"
  by (simp add: rnd_def)

lemma rnd_eq:
  "rnd x = of_int (round_half_even (x / 2 powi ulp_exponent x)) * 2 powi ulp_exponent x"
  using rhe_of_int [of 0] by (simp add: rnd_def)

lemma rnd_value:
  assumes "2 powi e \<le> \<bar>x\<bar>" "\<bar>x\<bar> < 2 powi (e + 1)" "- 1022 \<le> e"
    and "y = of_int m * 2 powi (e - 52)"
    and "\<bar>x - y\<bar> * 2 < 2 powi (e - 52) \<or> (\<bar>x - y\<bar> * 2 = 2 powi (e - 52) \<and> even m)"
  shows "rnd x = y"
proof -
  let ?u = "(2::real) powi (e - 52)"
  have u: "0 < ?u" by simp
  have k: "ulp_exponent x = e - 52"
    using ulp_exponent_eq [OF assms(1,2)] assms(3) by simp
  have x0: "x \<noteq> 0" using assms(1) by (smt (verit) zero_less_power_int abs_zero)
  have d: "\<bar>x / ?u - of_int m\<bar> = \<bar>x - y\<bar> / ?u"
    using u by (simp add: assms(4) field_simps abs_mult [symmetric] abs_divide)
  have "\<bar>x / ?u - of_int m\<bar> < 1/2 \<or> (\<bar>x / ?u - of_int m\<bar> = 1/2 \<and> even m)"
    unfolding d using assms(5) u by (auto simp: field_simps)
  then have "round_half_even (x / ?u) = m" by (rule rhe_char)
  then show ?thesis using x0 by (simp add: rnd_def k assms(4))
qed

text \<open>Rounding does not cross a multiple of a spacing that is at least the one of the
  argument. So it is monotone, it fixes every number with a significand of 53 bits, and
  it is idempotent.\<close>

lemma grid_split:
  assumes "j \<le> k"
  shows "(2::real) powi k = of_int (2 ^ nat (k - j)) * 2 powi j"
proof -
  have "(2::real) powi k = 2 powi ((k - j) + j)" by simp
  also have "\<dots> = 2 powi (k - j) * 2 powi j" by (rule power_int_add) simp
  also have "(2::real) powi (k - j) = 2 ^ nat (k - j)"
    using assms by (simp add: power_int_nonneg_exp)
  finally show ?thesis by simp
qed

lemma rnd_le_grid:
  assumes "x \<le> of_int m * 2 powi k" "ulp_exponent x \<le> k"
  shows "rnd x \<le> of_int m * 2 powi k"
proof -
  let ?u = "ulp_exponent x"
  let ?n = "m * 2 ^ nat (k - ?u)"
  have u: "(0::real) < 2 powi ?u" by simp
  have g: "of_int m * (2::real) powi k = of_int ?n * 2 powi ?u"
    using grid_split [OF assms(2)] by simp
  have "x / 2 powi ?u \<le> of_int ?n" using assms(1) u unfolding g by (simp add: field_simps)
  then have "round_half_even (x / 2 powi ?u) \<le> round_half_even (of_int ?n)" by (rule rhe_mono)
  then have "round_half_even (x / 2 powi ?u) \<le> ?n" by (simp only: rhe_of_int)
  then have "(of_int (round_half_even (x / 2 powi ?u)) :: real) \<le> of_int ?n"
    by (simp only: of_int_le_iff)
  then have "of_int (round_half_even (x / 2 powi ?u)) * (2::real) powi ?u \<le> of_int ?n * 2 powi ?u"
    by (rule mult_right_mono) simp
  then show ?thesis unfolding g by (simp only: rnd_eq [symmetric])
qed

lemma rnd_ge_grid:
  assumes "of_int m * 2 powi k \<le> x" "ulp_exponent x \<le> k"
  shows "of_int m * 2 powi k \<le> rnd x"
proof -
  let ?u = "ulp_exponent x"
  let ?n = "m * 2 ^ nat (k - ?u)"
  have u: "(0::real) < 2 powi ?u" by simp
  have g: "of_int m * (2::real) powi k = of_int ?n * 2 powi ?u"
    using grid_split [OF assms(2)] by simp
  have "of_int ?n \<le> x / 2 powi ?u" using assms(1) u unfolding g by (simp add: field_simps)
  then have "round_half_even (of_int ?n) \<le> round_half_even (x / 2 powi ?u)" by (rule rhe_mono)
  then have "?n \<le> round_half_even (x / 2 powi ?u)" by (simp only: rhe_of_int)
  then have "(of_int ?n :: real) \<le> of_int (round_half_even (x / 2 powi ?u))"
    by (simp only: of_int_le_iff)
  then have "of_int ?n * (2::real) powi ?u \<le> of_int (round_half_even (x / 2 powi ?u)) * 2 powi ?u"
    by (rule mult_right_mono) simp
  then show ?thesis unfolding g by (simp only: rnd_eq [symmetric])
qed

lemma rnd_nonneg: "0 \<le> x \<Longrightarrow> 0 \<le> rnd x"
  using rnd_ge_grid [of 0 "ulp_exponent x" x] by simp

lemma rnd_nonpos: "x \<le> 0 \<Longrightarrow> rnd x \<le> 0"
  using rnd_le_grid [of x 0 "ulp_exponent x"] by simp

lemma rnd_minus: "rnd (- x) = - rnd x"
  by (simp add: rnd_eq ulp_exponent_minus rhe_minus)

lemma rnd_mono_pos:
  assumes "0 < x" "x \<le> y"
  shows "rnd x \<le> rnd y"
proof (cases "ulp_exponent x = ulp_exponent y")
  case True
  let ?u = "ulp_exponent y"
  have "x / 2 powi ?u \<le> y / 2 powi ?u" using assms(2) by (intro divide_right_mono) simp_all
  then have "round_half_even (x / 2 powi ?u) \<le> round_half_even (y / 2 powi ?u)" by (rule rhe_mono)
  then have "(of_int (round_half_even (x / 2 powi ?u)) :: real)
               \<le> of_int (round_half_even (y / 2 powi ?u))" by (simp only: of_int_le_iff)
  then have "of_int (round_half_even (x / 2 powi ?u)) * (2::real) powi ?u
               \<le> of_int (round_half_even (y / 2 powi ?u)) * 2 powi ?u"
    by (rule mult_right_mono) simp
  then show ?thesis using True by (simp only: rnd_eq)
next
  case False
  then have lt: "ulp_exponent x < ulp_exponent y"
    using ulp_exponent_mono [OF assms] by simp
  define e where "e = \<lfloor>log 2 y\<rfloor>"
  have y: "0 < y" using assms by simp
  have ky: "ulp_exponent y = e - 52"
    using lt ulp_exponent_ge [of x] y unfolding ulp_exponent_def e_def by auto
  have ex: "\<lfloor>log 2 x\<rfloor> + 1 \<le> e"
    using lt assms(1) y unfolding ulp_exponent_def e_def by auto
  have "x < 2 powi (\<lfloor>log 2 x\<rfloor> + 1)" by (rule log2_bounds(2) [OF assms(1)])
  moreover have "(2::real) powi (\<lfloor>log 2 x\<rfloor> + 1) \<le> 2 powi e"
    using ex by (intro power_int_increasing) simp_all
  ultimately have "x \<le> of_int 1 * 2 powi e" by simp
  then have "rnd x \<le> of_int 1 * 2 powi e"
    by (rule rnd_le_grid) (use lt ky in simp)
  moreover have "of_int 1 * 2 powi e \<le> y"
    using log2_bounds(1) [OF y] by (simp add: e_def)
  then have "of_int 1 * 2 powi e \<le> rnd y"
    by (rule rnd_ge_grid) (simp add: ky)
  ultimately show ?thesis by linarith
qed

lemma rnd_mono:
  assumes "x \<le> y"
  shows "rnd x \<le> rnd y"
proof -
  consider "0 < x" | "x \<le> 0" "0 \<le> y" | "y < 0" by linarith
  then show ?thesis
  proof cases
    case 1
    then show ?thesis using assms by (rule rnd_mono_pos)
  next
    case 2
    then show ?thesis using rnd_nonpos [of x] rnd_nonneg [of y] by linarith
  next
    case 3
    then have "rnd (- y) \<le> rnd (- x)" using assms by (intro rnd_mono_pos) simp_all
    then show ?thesis by (simp add: rnd_minus)
  qed
qed

lemma rnd_dyadic:
  assumes "\<bar>m\<bar> < 2 ^ 53" "- 1074 \<le> k"
  shows "rnd (of_int m * 2 powi k) = of_int m * 2 powi k"
proof (cases "m = 0")
  case True
  then show ?thesis by (simp add: rnd_0)
next
  case False
  let ?x = "of_int m * (2::real) powi k"
  have "\<bar>?x\<bar> = of_int \<bar>m\<bar> * 2 powi k" by (simp add: abs_mult)
  also have "\<dots> < of_int (2 ^ 53) * 2 powi k"
    using assms(1) by (intro mult_strict_right_mono) (simp_all only: of_int_less_iff zero_less_power_int zero_less_numeral)
  also have "\<dots> = 2 powi (k + 53)"
    using power_int_add [of "2::real" k 53] by simp
  finally have "ulp_exponent ?x \<le> k"
    by (intro ulp_exponent_le) (use False assms(2) in simp_all)
  then show ?thesis
    using rnd_le_grid [of ?x m k] rnd_ge_grid [of m k ?x] by simp
qed


lemma rnd_idem: "rnd (rnd x) = rnd x"
proof (cases "x = 0")
  case True
  then show ?thesis by (simp add: rnd_0)
next
  case False
  define k where "k = ulp_exponent x"
  define n where "n = round_half_even (x / 2 powi k)"
  have y: "rnd x = of_int n * 2 powi k" by (simp add: rnd_eq n_def k_def)
  have k: "- 1074 \<le> k" unfolding k_def by (rule ulp_exponent_ge)
  have pos: "0 < \<bar>x\<bar>" using False by simp
  have "\<lfloor>log 2 \<bar>x\<bar>\<rfloor> + 1 \<le> k + 53" by (simp add: k_def ulp_exponent_def)
  then have "(2::real) powi (\<lfloor>log 2 \<bar>x\<bar>\<rfloor> + 1) \<le> 2 powi (k + 53)"
    by (intro power_int_increasing) simp_all
  then have "\<bar>x\<bar> \<le> 2 powi (k + 53)" using log2_bounds(2) [OF pos] by linarith
  also have "(2::real) powi (k + 53) = 2 ^ 53 * 2 powi k"
    using power_int_add [of "2::real" k 53] by simp
  finally have b: "\<bar>x / 2 powi k\<bar> \<le> 2 ^ 53" by (simp add: abs_divide divide_le_eq)
  have b1: "x / 2 powi k \<le> 2 ^ 53" and b2: "- (2 ^ 53) \<le> x / 2 powi k"
    using b by linarith+
  have r1: "round_half_even (2 ^ 53) = 2 ^ 53" using rhe_of_int [of "2 ^ 53"] by simp
  have r2: "round_half_even (- (2 ^ 53)) = - (2 ^ 53)" using rhe_of_int [of "- (2 ^ 53)"] by simp
  have "round_half_even (x / 2 powi k) \<le> round_half_even (2 ^ 53)"
    using b1 by (rule rhe_mono)
  moreover have "round_half_even (- (2 ^ 53)) \<le> round_half_even (x / 2 powi k)"
    using b2 by (rule rhe_mono)
  ultimately have n: "- (2 ^ 53) \<le> n" "n \<le> 2 ^ 53" unfolding n_def r1 r2 by simp_all
  consider "\<bar>n\<bar> < 2 ^ 53" | "n = 2 ^ 53" | "n = - (2 ^ 53)" using n by linarith
  then show ?thesis
  proof cases
    case 1
    then show ?thesis unfolding y by (rule rnd_dyadic) (rule k)
  next
    case 2
    have "of_int n * 2 powi k = of_int 1 * (2::real) powi (k + 53)"
      using power_int_add [of "2::real" k 53] by (simp add: 2)
    moreover have "rnd (of_int 1 * 2 powi (k + 53)) = of_int 1 * 2 powi (k + 53)"
      by (rule rnd_dyadic) (use k in simp_all)
    ultimately show ?thesis unfolding y by simp
  next
    case 3
    have "of_int n * 2 powi k = of_int (- 1) * (2::real) powi (k + 53)"
      using power_int_add [of "2::real" k 53] by (simp add: 3)
    moreover have "rnd (of_int (- 1) * 2 powi (k + 53)) = of_int (- 1) * 2 powi (k + 53)"
      by (rule rnd_dyadic) (use k in simp_all)
    ultimately show ?thesis unfolding y by simp
  qed
qed

text \<open>The rounding error: the result is at most twice the argument in absolute value, and
  within \<open>2\<^sup>-\<^sup>5\<^sup>3\<close> of it, relatively, above the subnormal range.\<close>

lemma rnd_abs_le: "\<bar>rnd x\<bar> \<le> 2 * \<bar>x\<bar>"
proof -
  let ?u = "(2::real) powi ulp_exponent x"
  have u: "0 < ?u" by simp
  have "\<bar>rnd x\<bar> = \<bar>real_of_int (round_half_even (x / ?u))\<bar> * ?u"
    by (simp add: rnd_eq abs_mult)
  also have "\<dots> \<le> (2 * \<bar>x / ?u\<bar>) * ?u"
    by (intro mult_right_mono rhe_abs_le) simp
  also have "\<dots> = 2 * \<bar>x\<bar>" using u by (simp add: abs_divide)
  finally show ?thesis .
qed

lemma rnd_rel:
  assumes "2 powi (- 1022) \<le> \<bar>x\<bar>"
  shows "\<bar>rnd x - x\<bar> \<le> \<bar>x\<bar> / 2 ^ 53"
proof -
  define e where "e = \<lfloor>log 2 \<bar>x\<bar>\<rfloor>"
  have pos: "0 < \<bar>x\<bar>" using assms by (smt (verit) zero_less_power_int)
  have lo: "2 powi e \<le> \<bar>x\<bar>" and hi: "\<bar>x\<bar> < 2 powi (e + 1)"
    using log2_bounds [OF pos] by (simp_all add: e_def)
  have "(2::real) powi (- 1022) < 2 powi (e + 1)" using assms hi by linarith
  then have "- 1022 < e + 1"
  proof -
    have "\<not> e + 1 \<le> - 1022"
    proof
      assume "e + 1 \<le> - 1022"
      then have "(2::real) powi (e + 1) \<le> 2 powi (- 1022)"
        by (intro power_int_increasing) simp_all
      then show False using \<open>(2::real) powi (- 1022) < 2 powi (e + 1)\<close> by linarith
    qed
    then show ?thesis by simp
  qed
  then have "max (e - 52) (- 1074) = e - 52" by simp
  then have k: "ulp_exponent x = e - 52" unfolding ulp_exponent_def e_def [symmetric] .
  let ?u = "(2::real) powi (e - 52)"
  have u: "0 < ?u" by simp
  have "\<bar>x / ?u - of_int (round_half_even (x / ?u))\<bar> \<le> 1/2"
    using rhe_spec [of "x / ?u"] by linarith
  then have "\<bar>x / ?u - of_int (round_half_even (x / ?u))\<bar> * ?u \<le> 1/2 * ?u"
    by (rule mult_right_mono) simp
  moreover have "\<bar>x / ?u - of_int (round_half_even (x / ?u))\<bar> * ?u = \<bar>x - rnd x\<bar>"
  proof -
    have "(x / ?u - of_int (round_half_even (x / ?u))) * ?u = x - rnd x"
      using u by (simp add: rnd_eq k left_diff_distrib)
    then have "\<bar>x - rnd x\<bar> = \<bar>x / ?u - of_int (round_half_even (x / ?u))\<bar> * \<bar>?u\<bar>"
      by (simp only: abs_mult [symmetric])
    then show ?thesis by simp
  qed
  ultimately have d: "\<bar>x - rnd x\<bar> \<le> ?u / 2" by simp
  have "?u = 2 powi e / 2 ^ 52"
    using power_int_diff [of "2::real" e 52] by simp
  then have "?u / 2 = 2 powi e / 2 ^ 53" by simp
  also have "\<dots> \<le> \<bar>x\<bar> / 2 ^ 53" using lo by (simp add: divide_right_mono)
  finally show ?thesis using d by linarith
qed

text \<open>The doubles of some constants.\<close>

lemma DBL_MAX_dyadic: "DBL_MAX = of_int (2 ^ 53 - 1) * 2 powi 971"
  by (simp add: DBL_MAX_def)

lemma DBL_MAX_ge: "(2::real) ^ 1023 \<le> DBL_MAX"
  by (simp add: DBL_MAX_def)

lemma DBL_MAX_pos: "0 < DBL_MAX" "1 \<le> DBL_MAX" "100 \<le> DBL_MAX" "20 \<le> DBL_MAX"
  by (simp_all add: DBL_MAX_def)

lemma rnd_DBL_MAX: "rnd DBL_MAX = DBL_MAX"
  unfolding DBL_MAX_dyadic by (rule rnd_dyadic) simp_all

lemma rnd_DBL_MAX_plus_one: "rnd (1 + DBL_MAX) = DBL_MAX"
  by (rule rnd_value [where e = 1023 and m = "2 ^ 53 - 1"]) (simp_all add: DBL_MAX_def)

lemma rnd_1: "rnd 1 = 1"
  using rnd_dyadic [of 1 0] by simp

lemma rnd_100: "rnd 100 = 100"
  using rnd_dyadic [of 100 0] by simp

lemma rnd_tenth: "rnd (1/10) = 3602879701896397 / 36028797018963968"
  by (rule rnd_value [where e = "- 4" and m = 7205759403792794]) simp_all

lemma rnd_minus_20: "rnd (- 20) = - 20"
  using rnd_dyadic [of "- 20" 0] by simp


lemma rnd_bounds:
  assumes "- DBL_MAX \<le> x" "x \<le> DBL_MAX"
  shows "- DBL_MAX \<le> rnd x" "rnd x \<le> DBL_MAX"
proof -
  have "rnd (- DBL_MAX) \<le> rnd x" using assms(1) by (rule rnd_mono)
  then show "- DBL_MAX \<le> rnd x" by (simp add: rnd_minus rnd_DBL_MAX)
  have "rnd x \<le> rnd DBL_MAX" using assms(2) by (rule rnd_mono)
  then show "rnd x \<le> DBL_MAX" by (simp add: rnd_DBL_MAX)
qed

text \<open>The result of an operation is finite when its exact result is within the range of the
  doubles.\<close>

lemma fl_rnd: "- DBL_MAX \<le> rnd x \<Longrightarrow> rnd x \<le> DBL_MAX \<Longrightarrow> fl x = Finite (rnd x)"
  by (simp add: fl_def Let_def)

lemma fl_Finite: "- DBL_MAX \<le> x \<Longrightarrow> x \<le> DBL_MAX \<Longrightarrow> fl x = Finite (rnd x)"
  using rnd_bounds [of x] by (simp add: fl_rnd)

lemma fl_FiniteD: "fl x = Finite y \<Longrightarrow> y = rnd x \<and> - DBL_MAX \<le> y \<and> y \<le> DBL_MAX"
  by (auto simp: fl_def Let_def split: if_splits)

lemma fl_nonneg:
  assumes "0 \<le> x"
  shows "fl x = (if DBL_MAX < rnd x then PInf else Finite (rnd x))"
proof -
  have "0 \<le> rnd x" using assms by (rule rnd_nonneg)
  then have "\<not> rnd x < - DBL_MAX" using DBL_MAX_pos(1) by linarith
  then show ?thesis by (simp add: fl_def Let_def)
qed

lemma fl_zero: "fl 0 = Finite 0"
  using DBL_MAX_pos(1) by (simp add: fl_def rnd_0)

lemma fl_value:
  assumes "2 powi e \<le> \<bar>x\<bar>" "\<bar>x\<bar> < 2 powi (e + 1)" "- 1022 \<le> e" "e \<le> 1022"
    and "y = of_int m * 2 powi (e - 52)"
    and "\<bar>x - y\<bar> * 2 < 2 powi (e - 52) \<or> (\<bar>x - y\<bar> * 2 = 2 powi (e - 52) \<and> even m)"
  shows "fl x = Finite y"
proof -
  have r: "rnd x = y" by (rule rnd_value [OF assms(1,2,3,5,6)])
  have "(2::real) powi (e + 1) \<le> 2 powi 1023"
    using assms(4) by (intro power_int_increasing) simp_all
  then have "\<bar>x\<bar> \<le> DBL_MAX" using assms(2) DBL_MAX_ge by simp
  then show ?thesis using fl_Finite [of x] r by simp
qed

lemma fl_small: "\<bar>x\<bar> \<le> 2 ^ 60 \<Longrightarrow> fl x = Finite (rnd x)"
proof -
  assume a: "\<bar>x\<bar> \<le> 2 ^ 60"
  have "(2::real) ^ 60 \<le> 2 ^ 1023" by (rule power_increasing) simp_all
  then have "\<bar>x\<bar> \<le> DBL_MAX" using a DBL_MAX_ge by linarith
  then show ?thesis by (intro fl_Finite) linarith+
qed

lemma fl_below: "\<bar>x\<bar> \<le> 2 ^ 1023 \<Longrightarrow> fl x = Finite (rnd x)"
  using DBL_MAX_ge by (intro fl_Finite) linarith+

lemma int_to_double_value: "fl (real_of_int n) = Finite t \<Longrightarrow> int_to_double n = Inr (Finite t)"
  by (simp add: int_to_double_def)


subsection \<open>The score as a function of the computed statistic\<close>

text \<open>For a finite, non-negative statistic no intermediate result is an infinity or a NaN:
  the score is the chain of roundings below, unless \<^verbatim>\<open>math.exp\<close> overflows.\<close>

lemma score_of_chi_sq_Finite:
  assumes "0 \<le> c" "c \<le> DBL_MAX"
  shows "score_of_chi_sq (Finite c) =
           (let e = rnd (exp (rnd (rnd (1/10) * rnd (c - 20))))
            in if DBL_MAX < e then Inl OverflowError
               else Inr (Finite (rnd (py_round1 (rnd (100 / rnd (1 + e)))))))"
proof -
  define k where "k = rnd (1/10)"
  define y where "y = rnd (c - 20)"
  define x where "x = rnd (k * y)"
  define e where "e = rnd (exp x)"
  define s where "s = rnd (1 + e)"
  define t where "t = rnd (100 / s)"
  have k: "fl (1/10) = Finite k"
    unfolding k_def by (rule fl_Finite) (use DBL_MAX_pos in simp_all)
  have k01: "0 \<le> k" "k \<le> 1"
    using rnd_nonneg [of "1/10"] rnd_mono [of "1/10" 1] by (simp_all add: k_def rnd_1)
  have yb: "- DBL_MAX \<le> y" "y \<le> DBL_MAX"
    unfolding y_def by (rule rnd_bounds; use assms DBL_MAX_pos in simp)+
  have y: "float_sub (Finite c) (Finite 20) = Finite y"
    using fl_rnd [of "c - 20"] yb by (simp add: float_sub_def y_def)
  have "\<bar>k * y\<bar> \<le> 1 * \<bar>y\<bar>"
    unfolding abs_mult using k01 by (intro mult_right_mono) simp_all
  then have "- DBL_MAX \<le> k * y" "k * y \<le> DBL_MAX" using yb by linarith+
  then have x: "fl (k * y) = Finite x"
    by (simp add: x_def fl_Finite)
  have e0: "0 \<le> e" unfolding e_def by (rule rnd_nonneg) simp
  have ex: "fl (exp x) = (if DBL_MAX < e then PInf else Finite e)"
    by (simp add: fl_nonneg e_def)
  show ?thesis
  proof (cases "DBL_MAX < e")
    case True
    then show ?thesis
      by (simp add: score_of_chi_sq_def Let_def k y x ex
            e_def [symmetric] x_def [symmetric] y_def [symmetric] k_def [symmetric])
  next
    case False
    have "rnd 1 \<le> s" unfolding s_def by (rule rnd_mono) (use e0 in simp)
    then have s1: "1 \<le> s" by (simp only: rnd_1)
    have "s \<le> rnd (1 + DBL_MAX)" unfolding s_def by (rule rnd_mono) (use False in simp)
    then have s2: "s \<le> DBL_MAX" by (simp only: rnd_DBL_MAX_plus_one)
    have s: "fl (1 + e) = Finite s"
      using fl_rnd [of "1 + e"] s1 s2 DBL_MAX_pos by (simp add: s_def)
    have q: "0 \<le> 100 / s" "100 / s \<le> 100" using s1 by (simp_all add: divide_le_eq)
    have "rnd (100 / s) \<le> rnd 100" using q(2) by (rule rnd_mono)
    then have t: "0 \<le> t" "t \<le> 100"
      using rnd_nonneg [OF q(1)] by (simp_all add: t_def rnd_100)
    have d: "fl (100 / s) = Finite t"
      using fl_Finite [of "100 / s"] q DBL_MAX_pos by (simp add: t_def)
    have s0: "s \<noteq> 0" using s1 by simp
    have r: "0 \<le> py_round1 t" "py_round1 t \<le> 100" using py_round1_range [OF t] by simp_all
    have f: "fl (py_round1 t) = Finite (rnd (py_round1 t))"
      using fl_Finite [of "py_round1 t"] r DBL_MAX_pos by simp
    show ?thesis using False
      by (simp add: score_of_chi_sq_def Let_def k y x ex s s0 d f
            t_def [symmetric] s_def [symmetric]
            e_def [symmetric] x_def [symmetric] y_def [symmetric] k_def [symmetric])
  qed
qed

text \<open>Every step of the chain is monotone or antitone.\<close>

lemma score_of_chi_sq_mono:
  assumes "0 \<le> c2" "c2 \<le> c1" "c1 \<le> DBL_MAX" "score_of_chi_sq (Finite c1) = Inr s1"
  shows "\<exists>y1 y2. s1 = Finite y1 \<and> score_of_chi_sq (Finite c2) = Inr (Finite y2) \<and> y1 \<le> y2"
proof -
  define e where "e c = rnd (exp (rnd (rnd (1/10) * rnd (c - 20))))" for c :: real
  define r where "r c = rnd (py_round1 (rnd (100 / rnd (1 + e c))))" for c :: real
  have form: "score_of_chi_sq (Finite c) =
      (if DBL_MAX < e c then Inl OverflowError else Inr (Finite (r c)))"
    if "0 \<le> c" "c \<le> DBL_MAX" for c
    using score_of_chi_sq_Finite [OF that] by (simp add: Let_def e_def r_def)
  have k: "0 \<le> rnd (1/10)" by (rule rnd_nonneg) simp
  have "rnd (c2 - 20) \<le> rnd (c1 - 20)" by (rule rnd_mono) (use assms(2) in simp)
  then have "rnd (1/10) * rnd (c2 - 20) \<le> rnd (1/10) * rnd (c1 - 20)"
    using k by (rule mult_left_mono)
  then have "rnd (rnd (1/10) * rnd (c2 - 20)) \<le> rnd (rnd (1/10) * rnd (c1 - 20))"
    by (rule rnd_mono)
  then have "exp (rnd (rnd (1/10) * rnd (c2 - 20))) \<le> exp (rnd (rnd (1/10) * rnd (c1 - 20)))"
    by simp
  then have le: "e c2 \<le> e c1" unfolding e_def by (rule rnd_mono)
  have e0: "0 \<le> e c2" unfolding e_def by (rule rnd_nonneg) simp
  have c1: "0 \<le> c1" "c2 \<le> DBL_MAX" using assms by linarith+
  have fin: "\<not> DBL_MAX < e c1" and s1: "s1 = Finite (r c1)"
    using assms(4) form [OF c1(1) assms(3)] by (auto split: if_splits)
  have fin2: "\<not> DBL_MAX < e c2" using fin le by linarith
  have "rnd 1 \<le> rnd (1 + e c2)" by (rule rnd_mono) (use e0 in simp)
  then have p: "0 < rnd (1 + e c2)" by (simp add: rnd_1)
  have "rnd (1 + e c2) \<le> rnd (1 + e c1)" by (rule rnd_mono) (use le in simp)
  then have "100 / rnd (1 + e c1) \<le> 100 / rnd (1 + e c2)"
    using p by (intro divide_left_mono mult_pos_pos) linarith+
  then have "rnd (100 / rnd (1 + e c1)) \<le> rnd (100 / rnd (1 + e c2))" by (rule rnd_mono)
  then have "py_round1 (rnd (100 / rnd (1 + e c1))) \<le> py_round1 (rnd (100 / rnd (1 + e c2)))"
    by (rule py_round1_mono)
  then have "r c1 \<le> r c2" unfolding r_def by (rule rnd_mono)
  moreover have "score_of_chi_sq (Finite c2) = Inr (Finite (r c2))"
    using form [OF assms(1) c1(2)] fin2 by simp
  ultimately show ?thesis using s1 by blast
qed

text \<open>A statistic of at most \<open>2\<^sup>-\<^sup>2\<^sup>0\<close> gives an exponent between \<open>- 2\<close> and \<open>- 2 + 2\<^sup>-\<^sup>2\<^sup>3\<close> and the
  score 88.1.\<close>

lemma exponent_at_zero: "rnd (rnd (1/10) * rnd (- 20)) = - 2"
  unfolding rnd_tenth by (simp add: rnd_minus_20)
    (rule rnd_value [where e = 1 and m = "- 4503599627370496"]; simp)

lemma exponent_small:
  assumes "0 \<le> c" "c \<le> 1 / 2 ^ 20"
  shows "- 2 \<le> rnd (rnd (1/10) * rnd (c - 20))"
    and "rnd (rnd (1/10) * rnd (c - 20)) \<le> - (16777215/8388608)"
proof -
  let ?k = "rnd (1/10)"
  have k: "0 \<le> ?k" by (rule rnd_nonneg) simp
  have "rnd (- 20) \<le> rnd (c - 20)" by (rule rnd_mono) (use assms(1) in simp)
  then have y1: "- 20 \<le> rnd (c - 20)" by (simp only: rnd_minus_20)
  have d1: "rnd (- (20971519/1048576)) = - (20971519/1048576)"
    using rnd_dyadic [of "- 20971519" "- 20"] by simp
  have "rnd (c - 20) \<le> rnd (- (20971519/1048576))" by (rule rnd_mono) (use assms(2) in simp)
  then have y2: "rnd (c - 20) \<le> - (20971519/1048576)" by (simp only: d1)
  have z: "rnd (?k * - 20) = - 2" using exponent_at_zero by (simp only: rnd_minus_20)
  have "?k * - 20 \<le> ?k * rnd (c - 20)" using k y1 by (rule mult_left_mono [rotated])
  then have "rnd (?k * - 20) \<le> rnd (?k * rnd (c - 20))" by (rule rnd_mono)
  then show "- 2 \<le> rnd (?k * rnd (c - 20))" by (simp only: z)
  have d2: "rnd (- (16777215/8388608)) = - (16777215/8388608)"
    using rnd_dyadic [of "- 16777215" "- 23"] by simp
  have "?k * rnd (c - 20) \<le> ?k * - (20971519/1048576)"
    using k y2 by (rule mult_left_mono [rotated])
  also have "\<dots> \<le> - (16777215/8388608)" unfolding rnd_tenth by simp
  finally have "rnd (?k * rnd (c - 20)) \<le> rnd (- (16777215/8388608))" by (rule rnd_mono)
  then show "rnd (?k * rnd (c - 20)) \<le> - (16777215/8388608)" by (simp only: d2)
qed

lemma exp_small_upper: "exp (- (16777215/8388608)) \<le> (2223/16384::real)"
proof -
  have "exp (1/8388608) \<le> 1 + 1/8388608 + (1/8388608 :: real)\<^sup>2"
    by (rule exp_bound) simp_all
  then have u: "exp (1/8388608) \<le> (1 + 1/4194304 :: real)" by (simp add: power2_eq_square)
  have "exp (- (16777215/8388608)) = exp (- 2) * exp (1/8388608 :: real)"
    by (simp add: exp_add [symmetric])
  also have "\<dots> \<le> 1356/10000 * (1 + 1/4194304)"
    using expm2_upper u by (intro mult_mono) simp_all
  also have "\<dots> \<le> 2223/16384" by simp
  finally show ?thesis .
qed

lemma score_of_chi_sq_small:
  assumes "0 \<le> c" "c \<le> 1 / 2 ^ 20"
  shows "score_of_chi_sq (Finite c) = Inr (Finite (rnd (881/10)))"
proof -
  define x where "x = rnd (rnd (1/10) * rnd (c - 20))"
  define e where "e = rnd (exp x)"
  define s where "s = rnd (1 + e)"
  define t where "t = rnd (100 / s)"
  have x1: "- 2 \<le> x" and x2: "x \<le> - (16777215/8388608)"
    using exponent_small [OF assms] by (simp_all add: x_def)
  have l: "69/512 \<le> exp x"
  proof -
    have "(69/512::real) \<le> exp (- 2)" using expm2_lower by simp
    also have "\<dots> \<le> exp x" using x1 by simp
    finally show ?thesis .
  qed
  have u: "exp x \<le> 2223/16384"
  proof -
    have "exp x \<le> exp (- (16777215/8388608))" using x2 by simp
    then show ?thesis using exp_small_upper by linarith
  qed
  have d1: "rnd (69/512) = 69/512" using rnd_dyadic [of 69 "- 9"] by simp
  have d2: "rnd (2223/16384) = 2223/16384" using rnd_dyadic [of 2223 "- 14"] by simp
  have d3: "rnd (581/512) = 581/512" using rnd_dyadic [of 581 "- 9"] by simp
  have d4: "rnd (18607/16384) = 18607/16384" using rnd_dyadic [of 18607 "- 14"] by simp
  have d5: "rnd (22541/256) = 22541/256" using rnd_dyadic [of 22541 "- 8"] by simp
  have d6: "rnd (705/8) = 705/8" using rnd_dyadic [of 705 "- 3"] by simp
  have "rnd (69/512) \<le> e" unfolding e_def using l by (rule rnd_mono)
  then have e1: "69/512 \<le> e" by (simp only: d1)
  have "e \<le> rnd (2223/16384)" unfolding e_def using u by (rule rnd_mono)
  then have e2: "e \<le> 2223/16384" by (simp only: d2)
  have "rnd (581/512) \<le> s" unfolding s_def by (rule rnd_mono) (use e1 in simp)
  then have s1: "581/512 \<le> s" by (simp only: d3)
  have "s \<le> rnd (18607/16384)" unfolding s_def by (rule rnd_mono) (use e2 in simp)
  then have s2: "s \<le> 18607/16384" by (simp only: d4)
  have "22541/256 * s \<le> 100" using s2 by simp
  then have "22541/256 \<le> 100 / s" using s1 by (simp add: pos_le_divide_eq)
  then have "rnd (22541/256) \<le> t" unfolding t_def by (rule rnd_mono)
  then have t1: "22541/256 \<le> t" by (simp only: d5)
  have "100 \<le> 705/8 * s" using s1 by simp
  then have "100 / s \<le> 705/8" using s1 by (simp add: pos_divide_le_eq)
  then have "t \<le> rnd (705/8)" unfolding t_def by (rule rnd_mono)
  then have t2: "t \<le> 705/8" by (simp only: d6)
  have "round_half_even (t * 10) = 881"
    by (rule rhe_unique) (use t1 t2 in simp_all)
  then have r: "py_round1 t = 881/10" by (simp add: py_round1_def)
  have fin: "\<not> DBL_MAX < e" using e2 DBL_MAX_pos(2) by linarith
  have "c \<le> DBL_MAX" using assms(2) DBL_MAX_pos(2) by (simp add: divide_le_eq) 
  then have "score_of_chi_sq (Finite c) =
      (if DBL_MAX < e then Inl OverflowError else Inr (Finite (rnd (py_round1 t))))"
    using score_of_chi_sq_Finite [OF assms(1)] unfolding Let_def x_def e_def s_def t_def by simp
  then show ?thesis using fin by (simp add: r)
qed

text \<open>The statistic 0.06549003106379916 gives the exponent \<open>- 1.9934509968936203\<close> and the
  score 88.0. The bounds on the exponential are a repeated squaring of
  \<open>1 - a \<le> exp (- a)\<close> and a partial sum of the series of \<open>exp 1.993\<close>.\<close>

lemma exp_1e31_lower: "(139/1024::real) \<le> exp (- (2244426291697863/1125899906842624))"
proof -
  have s0: "(8188013/8192000::real) \<le> exp (- (3987/8192000))"
    using exp_ge_add_one_self [of "- (3987/8192000)::real"] by simp
  have s1: "(31219589/31250000::real)
      \<le> exp (2 * - (3987/8192000))"
    by (rule exp_double_lower [OF _ s0]) simp_all
  have s2: "(998054643/1000000000::real)
      \<le> exp (2 * (2 * - (3987/8192000)))"
    by (rule exp_double_lower [OF _ s1]) simp_all
  have s3: "(99611307/100000000::real)
      \<le> exp (2 * (2 * (2 * - (3987/8192000))))"
    by (rule exp_double_lower [OF _ s2]) simp_all
  have s4: "(31007539/31250000::real)
      \<le> exp (2 * (2 * (2 * (2 * - (3987/8192000)))))"
    by (rule exp_double_lower [OF _ s3]) simp_all
  have s5: "(492271347/500000000::real)
      \<le> exp (2 * (2 * (2 * (2 * (2 * - (3987/8192000))))))"
    by (rule exp_double_lower [OF _ s4]) simp_all
  have s6: "(242331079/250000000::real)
      \<le> exp (2 * (2 * (2 * (2 * (2 * (2 * - (3987/8192000)))))))"
    by (rule exp_double_lower [OF _ s5]) simp_all
  have s7: "(939589629/1000000000::real)
      \<le> exp (2 * (2 * (2 * (2 * (2 * (2 * (2 * - (3987/8192000))))))))"
    by (rule exp_double_lower [OF _ s6]) simp_all
  have s8: "(88282867/100000000::real)
      \<le> exp (2 * (2 * (2 * (2 * (2 * (2 * (2 * (2 * - (3987/8192000)))))))))"
    by (rule exp_double_lower [OF _ s7]) simp_all
  have s9: "(38969323/50000000::real)
      \<le> exp (2 * (2 * (2 * (2 * (2 * (2 * (2 * (2 * (2 * - (3987/8192000))))))))))"
    by (rule exp_double_lower [OF _ s8]) simp_all
  have s10: "(303721627/500000000::real)
      \<le> exp (2 * (2 * (2 * (2 * (2 * (2 * (2 * (2 * (2 * (2 * - (3987/8192000)))))))))))"
    by (rule exp_double_lower [OF _ s9]) simp_all
  have s11: "(184493653/500000000::real)
      \<le> exp (2 * (2 * (2 * (2 * (2 * (2 * (2 * (2 * (2 * (2 * (2 * - (3987/8192000))))))))))))"
    by (rule exp_double_lower [OF _ s10]) simp_all
  have s12: "(136151631/1000000000::real)
      \<le> exp (2 * (2 * (2 * (2 * (2 * (2 * (2 * (2 * (2 * (2 * (2 * (2 * - (3987/8192000)))))))))))))"
    by (rule exp_double_lower [OF _ s11]) simp_all
  have "(136151631/1000000000::real) \<le> exp (- (3987/2000))" using s12 by simp
  also have "\<dots> \<le> exp (- (2244426291697863/1125899906842624))" by simp
  finally show ?thesis by simp
qed

lemma exp_1e31_upper: "exp (- (2244426291697863/1125899906842624)) \<le> (35/256::real)"
proof -
  have "(\<Sum>n<8. inverse (fact n) * (1993/1000::real)^n) \<le> (\<Sum>n. inverse (fact n) * (1993/1000)^n)"
    by (rule sum_le_suminf [OF summable_exp]) auto
  also have "\<dots> = exp (1993/1000)" by (simp add: exp_def)
  finally have "(\<Sum>n<8. inverse (fact n) * (1993/1000::real)^n) \<le> exp (1993/1000)" .
  moreover have "(732/100::real) \<le> (\<Sum>n<8. inverse (fact n) * (1993/1000::real)^n)"
    by (simp add: eval_nat_numeral lessThan_Suc)
  ultimately have t: "(732/100::real) \<le> exp (1993/1000)" by linarith
  have "exp (- (1993/1000)) * (732/100) \<le> exp (- (1993/1000)) * exp (1993/1000::real)"
    by (rule mult_left_mono [OF t]) simp
  also have "\<dots> = 1" by (simp add: exp_add [symmetric])
  finally have "exp (- (1993/1000)) \<le> (35/256::real)" by simp
  moreover have "exp (- (2244426291697863/1125899906842624)) \<le> exp (- (1993/1000::real))" by simp
  ultimately show ?thesis by linarith
qed

lemma score_of_chi_sq_1e31:
  "score_of_chi_sq (Finite (2359527035963265/36028797018963968)) = Inr (Finite 88)"
proof -
  define e where "e = rnd (exp (- (2244426291697863/1125899906842624)))"
  define s where "s = rnd (1 + e)"
  define t where "t = rnd (100 / s)"
  have y: "rnd (2359527035963265/36028797018963968 - 20) = - (5611065729244657/281474976710656)"
    by (rule rnd_value [where e = 4 and m = "- 5611065729244657"]) simp_all
  have x: "rnd (rnd (1/10) * - (5611065729244657/281474976710656))
             = - (2244426291697863/1125899906842624)"
    unfolding rnd_tenth by (rule rnd_value [where e = 0 and m = "- 8977705166791452"]) simp_all
  have c: "(0::real) \<le> 2359527035963265/36028797018963968"
    "2359527035963265/36028797018963968 \<le> DBL_MAX"
    using DBL_MAX_pos(2) by simp_all
  have form: "score_of_chi_sq (Finite (2359527035963265/36028797018963968)) =
      (if DBL_MAX < e then Inl OverflowError else Inr (Finite (rnd (py_round1 t))))"
    using score_of_chi_sq_Finite [OF c] unfolding Let_def y x e_def s_def t_def .
  have d1: "rnd (139/1024) = 139/1024" using rnd_dyadic [of 139 "- 10"] by simp
  have d2: "rnd (35/256) = 35/256" using rnd_dyadic [of 35 "- 8"] by simp
  have d3: "rnd (1163/1024) = 1163/1024" using rnd_dyadic [of 1163 "- 10"] by simp
  have d4: "rnd (291/256) = 291/256" using rnd_dyadic [of 291 "- 8"] by simp
  have d5: "rnd (2815/32) = 2815/32" using rnd_dyadic [of 2815 "- 5"] by simp
  have d6: "rnd (45081/512) = 45081/512" using rnd_dyadic [of 45081 "- 9"] by simp
  have d7: "rnd 88 = 88" using rnd_dyadic [of 88 0] by simp
  have "rnd (139/1024) \<le> e" unfolding e_def by (rule rnd_mono) (rule exp_1e31_lower)
  then have e1: "139/1024 \<le> e" by (simp only: d1)
  have "e \<le> rnd (35/256)" unfolding e_def by (rule rnd_mono) (rule exp_1e31_upper)
  then have e2: "e \<le> 35/256" by (simp only: d2)
  have "rnd (1163/1024) \<le> s" unfolding s_def by (rule rnd_mono) (use e1 in simp)
  then have s1: "1163/1024 \<le> s" by (simp only: d3)
  have "s \<le> rnd (291/256)" unfolding s_def by (rule rnd_mono) (use e2 in simp)
  then have s2: "s \<le> 291/256" by (simp only: d4)
  have "2815/32 * s \<le> 100" using s2 by simp
  then have "2815/32 \<le> 100 / s" using s1 by (simp add: pos_le_divide_eq)
  then have "rnd (2815/32) \<le> t" unfolding t_def by (rule rnd_mono)
  then have t1: "2815/32 \<le> t" by (simp only: d5)
  have "100 \<le> 45081/512 * s" using s1 by simp
  then have "100 / s \<le> 45081/512" using s1 by (simp add: pos_divide_le_eq)
  then have "t \<le> rnd (45081/512)" unfolding t_def by (rule rnd_mono)
  then have t2: "t \<le> 45081/512" by (simp only: d6)
  have "round_half_even (t * 10) = 880"
    by (rule rhe_unique) (use t1 t2 in simp_all)
  then have r: "py_round1 t = 88" by (simp add: py_round1_def)
  have "\<not> DBL_MAX < e" using e2 DBL_MAX_pos(2) by linarith
  then show ?thesis unfolding form by (simp add: r d7)
qed

subsection \<open>The computed statistic\<close>

text \<open>The statistic is never negative: it is a sum of quotients of squares by positive
  numbers.\<close>

lemma nonneg_double_simps:
  "nonneg_double (Finite x) \<longleftrightarrow> 0 \<le> x \<and> x \<le> DBL_MAX"
  "nonneg_double PInf" "nonneg_double NaN" "\<not> nonneg_double NInf"
  by (simp_all add: nonneg_double_def)

lemma fl_nonneg_double: "0 \<le> x \<Longrightarrow> nonneg_double (fl x)"
  using rnd_nonneg [of x] by (simp add: fl_nonneg nonneg_double_simps)

lemma float_pow2_nonneg: "float_pow2 d = Inr p \<Longrightarrow> nonneg_double p"
proof (cases d)
  case (Finite x)
  assume "float_pow2 d = Inr p"
  then have "p = fl (x * x)" using Finite by (auto split: double.splits)
  then show ?thesis using fl_nonneg_double [of "x * x"] by simp
qed (auto simp: nonneg_double_simps)

lemma float_div_nonneg:
  assumes "float_div p d = Inr q" "float_pos d" "nonneg_double p"
  shows "nonneg_double q"
proof (cases d)
  case (Finite y)
  then have y: "0 < y" using assms(2) by simp
  show ?thesis
  proof (cases p)
    case (Finite x)
    then have "0 \<le> x / y" using assms(3) y by (simp add: nonneg_double_simps)
    then show ?thesis
      using assms(1) Finite \<open>d = Finite y\<close> y fl_nonneg_double [of "x / y"] by auto
  qed (use assms Finite y in \<open>auto simp: nonneg_double_simps\<close>)
next
  case PInf
  then show ?thesis using assms by (cases p) (auto simp: nonneg_double_simps)
qed (use assms in auto)

lemma float_add_nonneg:
  assumes "nonneg_double a" "nonneg_double b"
  shows "nonneg_double (float_add a b)"
proof (cases a; cases b)
  fix x y assume "a = Finite x" "b = Finite y"
  then show ?thesis using assms fl_nonneg_double [of "x + y"] by (simp add: nonneg_double_simps)
qed (use assms in \<open>auto simp: nonneg_double_simps\<close>)

lemma chi_sq_step_double_nonneg:
  assumes "chi_sq_step_double counts benford tot chi i = Inr chi'" "nonneg_double chi"
  shows "nonneg_double chi'"
proof -
  obtain t where t: "int_to_double tot = Inr t"
    using assms(1) by (auto simp: chi_sq_step_double_def split: if_splits sum.splits)
  let ?E = "float_mul (benford ! i) t"
  show ?thesis
  proof (cases "float_pos ?E")
    case False
    then have "chi' = chi"
      using assms(1) t by (auto simp: chi_sq_step_double_def Let_def split: if_splits)
    then show ?thesis using assms(2) by simp
  next
    case True
    obtain Oi p q where "float_pow2 (float_sub Oi ?E) = Inr p" "float_div p ?E = Inr q"
      "chi' = float_add chi q"
      using assms(1) t True
      by (auto simp: chi_sq_step_double_def Let_def split: if_splits sum.splits)
    then show ?thesis
      using float_add_nonneg [OF assms(2)] float_div_nonneg [OF _ True] float_pow2_nonneg
      by blast
  qed
qed

lemma chi_sq_loop_nonneg:
  "chi_sq_loop counts benford tot chi idx = Inr r \<Longrightarrow> nonneg_double chi \<Longrightarrow> nonneg_double r"
proof (induction idx arbitrary: chi)
  case Nil
  then show ?case by simp
next
  case (Cons i rest)
  obtain chi' where s: "chi_sq_step_double counts benford tot chi i = Inr chi'"
    and l: "chi_sq_loop counts benford tot chi' rest = Inr r"
    using Cons.prems(1) by (auto split: sum.splits)
  show ?case
    by (rule Cons.IH [OF l]) (rule chi_sq_step_double_nonneg [OF s Cons.prems(2)])
qed

lemma chi_sq_double_range:
  assumes "chi_sq_double counts benford tot = Inr (Finite x)"
  shows "0 \<le> x \<and> x \<le> DBL_MAX"
proof -
  have "nonneg_double (Finite 0)" using DBL_MAX_pos(1) by (simp add: nonneg_double_simps)
  then have "nonneg_double (Finite x)"
    using assms chi_sq_loop_nonneg unfolding chi_sq_double_def by blast
  then show ?thesis by (simp add: nonneg_double_simps)
qed

text \<open>So the score is monotone in the statistic, whatever the inputs, as long as the two
  statistics are finite.\<close>

lemma score_monotone_double:
  assumes "chi_sq_double c1 b1 t1 = Inr (Finite x1)" "chi_sq_double c2 b2 t2 = Inr (Finite x2)"
    and "x2 \<le> x1" "chi_square_score_double c1 b1 t1 = Inr s1"
  shows "\<exists>y1 y2. s1 = Finite y1 \<and> chi_square_score_double c2 b2 t2 = Inr (Finite y2) \<and> y1 \<le> y2"
proof -
  have r1: "0 \<le> x1 \<and> x1 \<le> DBL_MAX" by (rule chi_sq_double_range [OF assms(1)])
  have r2: "0 \<le> x2 \<and> x2 \<le> DBL_MAX" by (rule chi_sq_double_range [OF assms(2)])
  have "score_of_chi_sq (Finite x1) = Inr s1"
    using assms(1,4) by (simp add: chi_square_score_double_def)
  then have "\<exists>y1 y2. s1 = Finite y1 \<and> score_of_chi_sq (Finite x2) = Inr (Finite y2) \<and> y1 \<le> y2"
    using r1 r2 assms(3) by (intro score_of_chi_sq_mono) simp_all
  then show ?thesis using assms(2) by (simp add: chi_square_score_double_def)
qed

text \<open>One iteration, from the finite values of its operations.\<close>

lemma chi_sq_step_double_value:
  assumes "i < length counts" "i < length benford"
    and "int_to_double tot = Inr (Finite T)"
    and "benford ! i = Finite b"
    and "fl (b * T) = Finite Ei" "0 < Ei"
    and "int_to_double (counts ! i) = Inr (Finite Oi)"
    and "fl (Oi - Ei) = Finite d"
    and "fl (d * d) = Finite p"
    and "fl (p / Ei) = Finite q"
    and "fl (chi + q) = Finite chi'"
  shows "chi_sq_step_double counts benford tot (Finite chi) i = Inr (Finite chi')"
  using assms by (simp add: chi_sq_step_double_def Let_def float_sub_def)

text \<open>For a histogram the statistic is finite whenever the loop returns. The expected count
  is between \<open>T / 64\<close> and \<open>T\<close> for the double \<open>T\<close> of the total, the observed count is at
  most \<open>T\<close>, and a difference whose square is finite is below \<open>2\<^sup>5\<^sup>1\<^sup>3\<close>: every term is below
  \<open>2\<^sup>5\<^sup>2\<^sup>2\<close>.\<close>

lemma square_finite:
  assumes "rnd (d * d) \<le> DBL_MAX"
  shows "\<bar>d\<bar> \<le> 2 ^ 513"
proof (rule ccontr)
  assume "\<not> \<bar>d\<bar> \<le> 2 ^ 513"
  then have a: "2 ^ 513 \<le> \<bar>d\<bar>" by simp
  have "(2::real) ^ 513 * 2 ^ 513 \<le> \<bar>d\<bar> * \<bar>d\<bar>" using a by (intro mult_mono) simp_all
  then have "(2::real) ^ 1026 \<le> d * d" by (simp add: abs_mult [symmetric] power_add [symmetric])
  then have "rnd (2 ^ 1026) \<le> rnd (d * d)" by (rule rnd_mono)
  moreover have "rnd (2 ^ 1026) = 2 ^ 1026" using rnd_dyadic [of 1 1026] by simp
  moreover have "DBL_MAX < 2 ^ 1026" by (simp add: DBL_MAX_def)
  ultimately show False using assms by linarith
qed

lemma histogram_step:
  assumes "benford ! i = Finite bh" "1/32 \<le> bh" "bh \<le> 1"
    and "0 \<le> counts ! i" "counts ! i \<le> tot"
    and "0 \<le> chi" "chi \<le> B" "B \<le> 2 ^ 1000"
    and "chi_sq_step_double counts benford tot (Finite chi) i = Inr r"
  shows "\<exists>chi'. r = Finite chi' \<and> 0 \<le> chi' \<and> chi' \<le> 2 * B + 2 ^ 523"
proof -
  obtain t where t: "int_to_double tot = Inr t" and idx: "i < length counts" "i < length benford"
    using assms(9) by (auto simp: chi_sq_step_double_def split: if_splits sum.splits)
  define T where "T = rnd (real_of_int tot)"
  have tT: "t = Finite T" and Tm: "T \<le> DBL_MAX"
    using t fl_FiniteD [of "real_of_int tot"]
    by (auto simp: int_to_double_def T_def split: double.splits)
  have tot0: "0 \<le> tot" using assms(4,5) by linarith
  have T0: "0 \<le> T" unfolding T_def by (rule rnd_nonneg) (use tot0 in simp)
  have rT: "rnd T = T" unfolding T_def by (rule rnd_idem)
  define z where "z = bh * T"
  define Ei where "Ei = rnd z"
  have z0: "0 \<le> z" unfolding z_def using assms(2) T0 by (intro mult_nonneg_nonneg) simp_all
  have "bh * T \<le> 1 * T" using assms(3) T0 by (intro mult_right_mono) simp_all
  then have zT: "z \<le> T" by (simp add: z_def)
  have fE: "fl (bh * T) = Finite Ei"
    unfolding Ei_def z_def [symmetric] by (rule fl_Finite) (use z0 zT Tm in linarith)+
  have E0: "0 \<le> Ei" unfolding Ei_def by (rule rnd_nonneg [OF z0])
  have "rnd z \<le> rnd T" using zT by (rule rnd_mono)
  then have ET: "Ei \<le> T" by (simp add: Ei_def rT)
  show ?thesis
  proof (cases "0 < Ei")
    case False
    then have "r = Finite chi"
      using assms(9) idx t tT assms(1) fE by (simp add: chi_sq_step_double_def Let_def)
    then show ?thesis using assms(6,7) by simp
  next
    case True
    have Tpos: "0 < T"
    proof (rule ccontr)
      assume "\<not> 0 < T"
      then have "T = 0" using T0 by simp
      then show False using True by (simp add: Ei_def z_def rnd_0)
    qed
    have "1 \<le> tot"
    proof (rule ccontr)
      assume "\<not> 1 \<le> tot"
      then have "tot = 0" using tot0 by simp
      then show False using Tpos by (simp add: T_def rnd_0)
    qed
    then have "rnd 1 \<le> rnd (real_of_int tot)" by (intro rnd_mono) simp
    then have T1: "1 \<le> T" by (simp add: T_def rnd_1)
    have "1/32 * T \<le> bh * T" using assms(2) T0 by (intro mult_right_mono) simp_all
    then have zl: "T / 32 \<le> z" by (simp add: z_def)
    have "(2::real) powi (- 1022) \<le> 1/32" by (simp add: power_int_minus_divide)
    then have "2 powi (- 1022) \<le> \<bar>z\<bar>" using zl T1 by linarith
    then have "\<bar>rnd z - z\<bar> \<le> \<bar>z\<bar> / 2 ^ 53" by (rule rnd_rel)
    moreover have "\<bar>z\<bar> / 2 ^ 53 \<le> \<bar>z\<bar> / 2" by (intro divide_left_mono) simp_all
    ultimately have "z / 2 \<le> rnd z" using z0 by linarith
    then have El: "T / 64 \<le> Ei" using zl by (simp add: Ei_def)
    obtain o' where o': "int_to_double (counts ! i) = Inr o'"
      using assms(9) idx t tT assms(1) fE True
      by (auto simp: chi_sq_step_double_def Let_def split: sum.splits)
    define Oi where "Oi = rnd (real_of_int (counts ! i))"
    have oO: "o' = Finite Oi"
      using o' fl_FiniteD [of "real_of_int (counts ! i)"]
      by (auto simp: int_to_double_def Oi_def split: double.splits)
    have O0: "0 \<le> Oi" unfolding Oi_def by (rule rnd_nonneg) (use assms(4) in simp)
    have OT: "Oi \<le> T" unfolding Oi_def T_def by (rule rnd_mono) (use assms(5) in simp)
    define d where "d = rnd (Oi - Ei)"
    have dT: "\<bar>Oi - Ei\<bar> \<le> T" using O0 OT E0 ET by linarith
    have fd: "fl (Oi - Ei) = Finite d"
      unfolding d_def by (rule fl_Finite) (use dT Tm in linarith)+
    define p where "p = rnd (d * d)"
    have p0: "0 \<le> p" unfolding p_def by (rule rnd_nonneg) simp
    have fp: "fl (d * d) = Finite p"
      using assms(9) idx t tT assms(1) fE True o' oO fd fl_FiniteD [of "d * d"]
      by (auto simp: chi_sq_step_double_def Let_def float_sub_def p_def
            split: sum.splits double.splits)
    then have "p \<le> DBL_MAX" using fl_FiniteD by blast
    then have d513: "\<bar>d\<bar> \<le> 2 ^ 513" unfolding p_def by (rule square_finite)
    have "\<bar>d\<bar> \<le> 2 * \<bar>Oi - Ei\<bar>" unfolding d_def by (rule rnd_abs_le)
    also have "\<dots> \<le> 2 * T" using dT by simp
    finally have d2T: "\<bar>d\<bar> \<le> 2 * T" .
    have "p \<le> \<bar>p\<bar>" by simp
    also have "\<dots> \<le> 2 * \<bar>d * d\<bar>" unfolding p_def by (rule rnd_abs_le)
    also have "\<dots> = 2 * (\<bar>d\<bar> * \<bar>d\<bar>)" by (simp add: abs_mult)
    also have "\<dots> \<le> 2 * (\<bar>d\<bar> * (2 * T))"
      using d2T by (intro mult_left_mono) simp_all
    finally have pu: "p \<le> 4 * \<bar>d\<bar> * T" by simp
    have "p / Ei \<le> p / (T / 64)" using El p0 Tpos by (intro divide_left_mono) simp_all
    also have "\<dots> \<le> (4 * \<bar>d\<bar> * T) / (T / 64)"
      using pu Tpos by (intro divide_right_mono) simp_all
    also have "\<dots> = 256 * \<bar>d\<bar>" using Tpos by simp
    also have "\<dots> \<le> 256 * 2 ^ 513" using d513 by simp
    also have "\<dots> = (2::real) ^ 521" by simp
    finally have pe: "p / Ei \<le> 2 ^ 521" .
    have pe0: "0 \<le> p / Ei" using p0 True by simp
    define q where "q = rnd (p / Ei)"
    have "(2::real) ^ 521 \<le> 2 ^ 1023" by (rule power_increasing) simp_all
    then have "\<bar>p / Ei\<bar> \<le> 2 ^ 1023" using pe pe0 by linarith
    then have fq: "fl (p / Ei) = Finite q" unfolding q_def by (rule fl_below)
    have q0: "0 \<le> q" unfolding q_def by (rule rnd_nonneg [OF pe0])
    have "q \<le> \<bar>q\<bar>" by simp
    also have "\<dots> \<le> 2 * \<bar>p / Ei\<bar>" unfolding q_def by (rule rnd_abs_le)
    also have "\<dots> = 2 * (p / Ei)" using p0 True by simp
    also have "\<dots> \<le> 2 * 2 ^ 521" by (intro mult_left_mono pe) simp
    also have "\<dots> = (2::real) ^ 522" by simp
    finally have qu: "q \<le> 2 ^ 522" .
    have "(2::real) ^ 1000 + 2 ^ 522 \<le> 2 ^ 1023" by simp
    then have "\<bar>chi + q\<bar> \<le> 2 ^ 1023" using assms(6,7,8) q0 qu by linarith
    then have fc: "fl (chi + q) = Finite (rnd (chi + q))" by (rule fl_below)
    have "chi_sq_step_double counts benford tot (Finite chi) i = Inr (Finite (rnd (chi + q)))"
      using o' unfolding oO tT
      by (intro chi_sq_step_double_value [OF idx _ assms(1) fE True _ fd fp fq fc])
        (use t tT in simp_all)
    then have r: "r = Finite (rnd (chi + q))" using assms(9) by simp
    have n: "0 \<le> rnd (chi + q)" by (rule rnd_nonneg) (use assms(6) q0 in simp)
    have "rnd (chi + q) \<le> \<bar>rnd (chi + q)\<bar>" by simp
    also have "\<dots> \<le> 2 * \<bar>chi + q\<bar>" by (rule rnd_abs_le)
    also have "\<dots> = 2 * chi + 2 * q" using assms(6) q0 by simp
    also have "\<dots> \<le> 2 * B + 2 * 2 ^ 522"
      by (intro add_mono mult_left_mono assms(7) qu) simp_all
    also have "\<dots> = 2 * B + 2 ^ 523" by simp
    finally show ?thesis using r n by blast
  qed
qed

lemma nth_le_sum_list:
  fixes xs :: "int list"
  shows "list_all (\<lambda>c. 0 \<le> c) xs \<Longrightarrow> i < length xs \<Longrightarrow> 0 \<le> xs ! i \<and> xs ! i \<le> sum_list xs"
proof (induction xs arbitrary: i)
  case Nil
  then show ?case by simp
next
  case (Cons x xs)
  have s: "0 \<le> sum_list xs" using Cons.prems(1) by (simp add: sum_list_nonneg list_all_iff)
  show ?case
  proof (cases i)
    case 0
    then show ?thesis using Cons.prems(1) s by simp
  next
    case (Suc j)
    then have "0 \<le> xs ! j \<and> xs ! j \<le> sum_list xs"
      using Cons.IH [of j] Cons.prems by simp
    then show ?thesis using Suc Cons.prems(1) by simp
  qed
qed

lemma BENFORD_range: "i < 9 \<Longrightarrow> 1/32 \<le> BENFORD ! i \<and> BENFORD ! i \<le> 1"
proof -
  assume "i < 9"
  then have "BENFORD ! i \<in> set BENFORD" by (simp add: length_BENFORD)
  moreover have "\<forall>b\<in>set BENFORD. 1/32 \<le> b \<and> b \<le> 1" by (simp add: BENFORD_def)
  ultimately show ?thesis by blast
qed

lemma BENFORD_close:
  assumes "i < 9"
  shows "BENFORD_double ! i = Finite (rnd (BENFORD ! i))
         \<and> \<bar>rnd (BENFORD ! i) - BENFORD ! i\<bar> \<le> BENFORD ! i / 2 ^ 53"
proof -
  let ?b = "BENFORD ! i"
  have b: "1/32 \<le> ?b" "?b \<le> 1" using BENFORD_range [OF assms] by simp_all
  have "fl ?b = Finite (rnd ?b)" by (rule fl_small) (use b in simp)
  then have 1: "BENFORD_double ! i = Finite (rnd ?b)"
    using assms by (simp add: BENFORD_double_def length_BENFORD)
  have "(2::real) powi (- 1022) \<le> 1/32" by (simp add: power_int_minus_divide)
  then have "2 powi (- 1022) \<le> \<bar>?b\<bar>" using b by linarith
  then have "\<bar>rnd ?b - ?b\<bar> \<le> \<bar>?b\<bar> / 2 ^ 53" by (rule rnd_rel)
  then have 2: "\<bar>rnd ?b - ?b\<bar> \<le> ?b / 2 ^ 53" using b by simp
  show ?thesis using 1 2 by simp
qed

lemma BENFORD_double_range:
  assumes "i < 9"
  shows "\<exists>bh. BENFORD_double ! i = Finite bh \<and> 1/32 \<le> bh \<and> bh \<le> 1"
proof -
  have b: "1/32 \<le> BENFORD ! i" "BENFORD ! i \<le> 1" using BENFORD_range [OF assms] by simp_all
  have d: "rnd (1/32) = 1/32" using rnd_dyadic [of 1 "- 5"] by simp
  have "rnd (1/32) \<le> rnd (BENFORD ! i)" using b(1) by (rule rnd_mono)
  moreover have "rnd (BENFORD ! i) \<le> rnd 1" using b(2) by (rule rnd_mono)
  ultimately show ?thesis using BENFORD_close [OF assms] by (simp add: d rnd_1)
qed

lemma histogram_loop:
  assumes h: "histogram counts tot"
  shows "set idx \<subseteq> {..<9} \<Longrightarrow> 0 \<le> chi \<Longrightarrow> chi \<le> B
     \<Longrightarrow> 2 ^ length idx * (B + 2 ^ 523) \<le> 2 ^ 1000
     \<Longrightarrow> chi_sq_loop counts BENFORD_double tot (Finite chi) idx = Inr r
     \<Longrightarrow> \<exists>x. r = Finite x \<and> 0 \<le> x \<and> x \<le> 2 ^ length idx * (B + 2 ^ 523)"
proof (induction idx arbitrary: chi B)
  case Nil
  then have r: "r = Finite chi" by simp
  have "(0::real) \<le> 2 ^ 523" by simp
  then have "chi \<le> B + 2 ^ 523" using Nil.prems(3) by linarith
  then show ?case using r Nil.prems(2) by simp
next
  case (Cons i rest)
  have i: "i < 9" using Cons.prems(1) by simp
  have c: "0 \<le> counts ! i \<and> counts ! i \<le> tot"
    using nth_le_sum_list [of counts i] h i by (simp add: histogram_def)
  have B0: "0 \<le> B" using Cons.prems(2,3) by linarith
  have "(1::real) \<le> 2 ^ length (i # rest)" by (rule one_le_power) simp
  then have "1 * (B + 2 ^ 523) \<le> 2 ^ length (i # rest) * (B + 2 ^ 523)"
    using B0 by (intro mult_right_mono) simp_all
  then have B1: "B \<le> 2 ^ 1000" using Cons.prems(4) by simp
  obtain r' where s: "chi_sq_step_double counts BENFORD_double tot (Finite chi) i = Inr r'"
    and l: "chi_sq_loop counts BENFORD_double tot r' rest = Inr r"
    using Cons.prems(5) by (auto split: sum.splits)
  obtain bh where bh: "BENFORD_double ! i = Finite bh" "1/32 \<le> bh" "bh \<le> 1"
    using BENFORD_double_range [OF i] by blast
  obtain chi' where r': "r' = Finite chi'" and c0: "0 \<le> chi'" and c1: "chi' \<le> 2 * B + 2 ^ 523"
    using histogram_step [OF bh _ _ Cons.prems(2,3) B1 s] c by blast
  have e: "2 ^ length rest * (2 * B + 2 ^ 523 + 2 ^ 523)
             = 2 ^ length (i # rest) * (B + 2 ^ 523)"
    by (simp add: algebra_simps)
  show ?case
    using Cons.IH [of chi' "2 * B + 2 ^ 523"] Cons.prems(1,4) c0 c1 l
    unfolding e r' by auto
qed

lemma histogram_chi_sq_finite:
  assumes "histogram counts tot" "chi_sq_double counts BENFORD_double tot = Inr d"
  shows "\<exists>x. d = Finite x"
proof -
  have "(2::real) ^ length [0..<9] * (0 + 2 ^ 523) \<le> 2 ^ 1000" by simp
  then have "\<exists>x. d = Finite x \<and> 0 \<le> x \<and> x \<le> 2 ^ length [0..<9] * (0 + 2 ^ 523)"
    using assms(2) unfolding chi_sq_double_def
    by (intro histogram_loop [OF assms(1)]) auto
  then show ?thesis by blast
qed

subsection \<open>Exact matches of the Benford proportions\<close>







text \<open>Whatever the inputs, a computed statistic of 0 gives the score 88.1.\<close>

lemma zero_chi_sq_score:
  assumes "chi_sq_double counts benford tot = Inr (Finite 0)"
  shows "chi_square_score_double counts benford tot = Inr (Finite (rnd (881/10)))"
  using assms score_of_chi_sq_small [of 0] by (simp add: chi_square_score_double_def)

subsection \<open>The statistic of three histograms\<close>

text \<open>The loop, operation by operation, for the Benford proportions of 1000 and of
  \<open>10\<^sup>3\<^sup>1\<close> and for the histogram of total \<open>10\<^sup>3\<^sup>1\<close> whose counts are converted to the expected
  counts.\<close>

lemma BENFORD_double_values:
  "BENFORD_double =
     [Finite (5422333951354077/18014398509481984),
      Finite (3170534137668829/18014398509481984),
      Finite (1/8),
      Finite (3494793310839505/36028797018963968),
      Finite (5692549928996307/72057594037927936),
      Finite (1206964700135293/18014398509481984),
      Finite (8358680908399641/144115188075855872),
      Finite (7349874591868649/144115188075855872),
      Finite (3314649325744685/72057594037927936)]"
proof -
  have b0: "fl (301/1000) = Finite (5422333951354077/18014398509481984)"
    by (rule fl_value [where e = "(- 2)" and m = "5422333951354077"]) simp_all
  have b1: "fl (176/1000) = Finite (3170534137668829/18014398509481984)"
    by (rule fl_value [where e = "(- 3)" and m = "6341068275337658"]) simp_all
  have b2: "fl (125/1000) = Finite (1/8)"
    by (rule fl_value [where e = "(- 3)" and m = "4503599627370496"]) simp_all
  have b3: "fl (97/1000) = Finite (3494793310839505/36028797018963968)"
    by (rule fl_value [where e = "(- 4)" and m = "6989586621679010"]) simp_all
  have b4: "fl (79/1000) = Finite (5692549928996307/72057594037927936)"
    by (rule fl_value [where e = "(- 4)" and m = "5692549928996307"]) simp_all
  have b5: "fl (67/1000) = Finite (1206964700135293/18014398509481984)"
    by (rule fl_value [where e = "(- 4)" and m = "4827858800541172"]) simp_all
  have b6: "fl (58/1000) = Finite (8358680908399641/144115188075855872)"
    by (rule fl_value [where e = "(- 5)" and m = "8358680908399641"]) simp_all
  have b7: "fl (51/1000) = Finite (7349874591868649/144115188075855872)"
    by (rule fl_value [where e = "(- 5)" and m = "7349874591868649"]) simp_all
  have b8: "fl (46/1000) = Finite (3314649325744685/72057594037927936)"
    by (rule fl_value [where e = "(- 5)" and m = "6629298651489370"]) simp_all
  show ?thesis unfolding BENFORD_double_def BENFORD_def
    by (simp only: list.map b0 b1 b2 b3 b4 b5 b6 b7 b8)
qed

lemma match_1000_total: "int_to_double 1000 = Inr (Finite 1000)"
proof -
  have "fl (real_of_int 1000) = Finite 1000"
    by simp (rule fl_value [where e = "9" and m = "8796093022208000"]; simp)
  then show ?thesis by (rule int_to_double_value)
qed

lemma match_1000_step_0:
  "chi_sq_step_double match_1000 BENFORD_double 1000 (Finite 0) 0 = Inr (Finite 0)"
proof (rule chi_sq_step_double_value [where T = "1000" and b = "(5422333951354077/18014398509481984)" and Ei = "301" and Oi = "301" and d = "0" and p = "0" and q = "0"])
  show "0 < length match_1000" by (simp add: match_1000_def)
  show "0 < length BENFORD_double" by (simp add: BENFORD_double_def BENFORD_def)
  show "int_to_double 1000 = Inr (Finite 1000)" by (rule match_1000_total)
  show "BENFORD_double ! 0 = Finite (5422333951354077/18014398509481984)" by (simp add: BENFORD_double_values)
  show "fl ((5422333951354077/18014398509481984) * 1000) = Finite 301"
    by (rule fl_value [where e = "8" and m = "5295247999369216"]) simp_all
  show "(0::real) < 301" by simp
  have "fl (real_of_int 301) = Finite 301"
    by simp (rule fl_value [where e = "8" and m = "5295247999369216"]; simp)
  then show "int_to_double (match_1000 ! 0) = Inr (Finite 301)"
    by (simp add: match_1000_def int_to_double_def)
  show "fl (301 - 301) = Finite 0"
    by (simp add: fl_zero)
  show "fl (0 * 0) = Finite 0"
    by (simp add: fl_zero)
  show "fl (0 / 301) = Finite 0"
    by (simp add: fl_zero)
  show "fl (0 + 0) = Finite 0"
    by (simp add: fl_zero)
qed

lemma match_1000_step_1:
  "chi_sq_step_double match_1000 BENFORD_double 1000 (Finite 0) 1 = Inr (Finite 0)"
proof (rule chi_sq_step_double_value [where T = "1000" and b = "(3170534137668829/18014398509481984)" and Ei = "176" and Oi = "176" and d = "0" and p = "0" and q = "0"])
  show "1 < length match_1000" by (simp add: match_1000_def)
  show "1 < length BENFORD_double" by (simp add: BENFORD_double_def BENFORD_def)
  show "int_to_double 1000 = Inr (Finite 1000)" by (rule match_1000_total)
  show "BENFORD_double ! 1 = Finite (3170534137668829/18014398509481984)" by (simp add: BENFORD_double_values)
  show "fl ((3170534137668829/18014398509481984) * 1000) = Finite 176"
    by (rule fl_value [where e = "7" and m = "6192449487634432"]) simp_all
  show "(0::real) < 176" by simp
  have "fl (real_of_int 176) = Finite 176"
    by simp (rule fl_value [where e = "7" and m = "6192449487634432"]; simp)
  then show "int_to_double (match_1000 ! 1) = Inr (Finite 176)"
    by (simp add: match_1000_def int_to_double_def)
  show "fl (176 - 176) = Finite 0"
    by (simp add: fl_zero)
  show "fl (0 * 0) = Finite 0"
    by (simp add: fl_zero)
  show "fl (0 / 176) = Finite 0"
    by (simp add: fl_zero)
  show "fl (0 + 0) = Finite 0"
    by (simp add: fl_zero)
qed

lemma match_1000_step_2:
  "chi_sq_step_double match_1000 BENFORD_double 1000 (Finite 0) 2 = Inr (Finite 0)"
proof (rule chi_sq_step_double_value [where T = "1000" and b = "(1/8)" and Ei = "125" and Oi = "125" and d = "0" and p = "0" and q = "0"])
  show "2 < length match_1000" by (simp add: match_1000_def)
  show "2 < length BENFORD_double" by (simp add: BENFORD_double_def BENFORD_def)
  show "int_to_double 1000 = Inr (Finite 1000)" by (rule match_1000_total)
  show "BENFORD_double ! 2 = Finite (1/8)" by (simp add: BENFORD_double_values)
  show "fl ((1/8) * 1000) = Finite 125"
    by (rule fl_value [where e = "6" and m = "8796093022208000"]) simp_all
  show "(0::real) < 125" by simp
  have "fl (real_of_int 125) = Finite 125"
    by simp (rule fl_value [where e = "6" and m = "8796093022208000"]; simp)
  then show "int_to_double (match_1000 ! 2) = Inr (Finite 125)"
    by (simp add: match_1000_def int_to_double_def)
  show "fl (125 - 125) = Finite 0"
    by (simp add: fl_zero)
  show "fl (0 * 0) = Finite 0"
    by (simp add: fl_zero)
  show "fl (0 / 125) = Finite 0"
    by (simp add: fl_zero)
  show "fl (0 + 0) = Finite 0"
    by (simp add: fl_zero)
qed

lemma match_1000_step_3:
  "chi_sq_step_double match_1000 BENFORD_double 1000 (Finite 0) 3 = Inr (Finite 0)"
proof (rule chi_sq_step_double_value [where T = "1000" and b = "(3494793310839505/36028797018963968)" and Ei = "97" and Oi = "97" and d = "0" and p = "0" and q = "0"])
  show "3 < length match_1000" by (simp add: match_1000_def)
  show "3 < length BENFORD_double" by (simp add: BENFORD_double_def BENFORD_def)
  show "int_to_double 1000 = Inr (Finite 1000)" by (rule match_1000_total)
  show "BENFORD_double ! 3 = Finite (3494793310839505/36028797018963968)" by (simp add: BENFORD_double_values)
  show "fl ((3494793310839505/36028797018963968) * 1000) = Finite 97"
    by (rule fl_value [where e = "6" and m = "6825768185233408"]) simp_all
  show "(0::real) < 97" by simp
  have "fl (real_of_int 97) = Finite 97"
    by simp (rule fl_value [where e = "6" and m = "6825768185233408"]; simp)
  then show "int_to_double (match_1000 ! 3) = Inr (Finite 97)"
    by (simp add: match_1000_def int_to_double_def)
  show "fl (97 - 97) = Finite 0"
    by (simp add: fl_zero)
  show "fl (0 * 0) = Finite 0"
    by (simp add: fl_zero)
  show "fl (0 / 97) = Finite 0"
    by (simp add: fl_zero)
  show "fl (0 + 0) = Finite 0"
    by (simp add: fl_zero)
qed

lemma match_1000_step_4:
  "chi_sq_step_double match_1000 BENFORD_double 1000 (Finite 0) 4 = Inr (Finite 0)"
proof (rule chi_sq_step_double_value [where T = "1000" and b = "(5692549928996307/72057594037927936)" and Ei = "79" and Oi = "79" and d = "0" and p = "0" and q = "0"])
  show "4 < length match_1000" by (simp add: match_1000_def)
  show "4 < length BENFORD_double" by (simp add: BENFORD_double_def BENFORD_def)
  show "int_to_double 1000 = Inr (Finite 1000)" by (rule match_1000_total)
  show "BENFORD_double ! 4 = Finite (5692549928996307/72057594037927936)" by (simp add: BENFORD_double_values)
  show "fl ((5692549928996307/72057594037927936) * 1000) = Finite 79"
    by (rule fl_value [where e = "6" and m = "5559130790035456"]) simp_all
  show "(0::real) < 79" by simp
  have "fl (real_of_int 79) = Finite 79"
    by simp (rule fl_value [where e = "6" and m = "5559130790035456"]; simp)
  then show "int_to_double (match_1000 ! 4) = Inr (Finite 79)"
    by (simp add: match_1000_def int_to_double_def)
  show "fl (79 - 79) = Finite 0"
    by (simp add: fl_zero)
  show "fl (0 * 0) = Finite 0"
    by (simp add: fl_zero)
  show "fl (0 / 79) = Finite 0"
    by (simp add: fl_zero)
  show "fl (0 + 0) = Finite 0"
    by (simp add: fl_zero)
qed

lemma match_1000_step_5:
  "chi_sq_step_double match_1000 BENFORD_double 1000 (Finite 0) 5 = Inr (Finite 0)"
proof (rule chi_sq_step_double_value [where T = "1000" and b = "(1206964700135293/18014398509481984)" and Ei = "67" and Oi = "67" and d = "0" and p = "0" and q = "0"])
  show "5 < length match_1000" by (simp add: match_1000_def)
  show "5 < length BENFORD_double" by (simp add: BENFORD_double_def BENFORD_def)
  show "int_to_double 1000 = Inr (Finite 1000)" by (rule match_1000_total)
  show "BENFORD_double ! 5 = Finite (1206964700135293/18014398509481984)" by (simp add: BENFORD_double_values)
  show "fl ((1206964700135293/18014398509481984) * 1000) = Finite 67"
    by (rule fl_value [where e = "6" and m = "4714705859903488"]) simp_all
  show "(0::real) < 67" by simp
  have "fl (real_of_int 67) = Finite 67"
    by simp (rule fl_value [where e = "6" and m = "4714705859903488"]; simp)
  then show "int_to_double (match_1000 ! 5) = Inr (Finite 67)"
    by (simp add: match_1000_def int_to_double_def)
  show "fl (67 - 67) = Finite 0"
    by (simp add: fl_zero)
  show "fl (0 * 0) = Finite 0"
    by (simp add: fl_zero)
  show "fl (0 / 67) = Finite 0"
    by (simp add: fl_zero)
  show "fl (0 + 0) = Finite 0"
    by (simp add: fl_zero)
qed

lemma match_1000_step_6:
  "chi_sq_step_double match_1000 BENFORD_double 1000 (Finite 0) 6 = Inr (Finite 0)"
proof (rule chi_sq_step_double_value [where T = "1000" and b = "(8358680908399641/144115188075855872)" and Ei = "58" and Oi = "58" and d = "0" and p = "0" and q = "0"])
  show "6 < length match_1000" by (simp add: match_1000_def)
  show "6 < length BENFORD_double" by (simp add: BENFORD_double_def BENFORD_def)
  show "int_to_double 1000 = Inr (Finite 1000)" by (rule match_1000_total)
  show "BENFORD_double ! 6 = Finite (8358680908399641/144115188075855872)" by (simp add: BENFORD_double_values)
  show "fl ((8358680908399641/144115188075855872) * 1000) = Finite 58"
    by (rule fl_value [where e = "5" and m = "8162774324609024"]) simp_all
  show "(0::real) < 58" by simp
  have "fl (real_of_int 58) = Finite 58"
    by simp (rule fl_value [where e = "5" and m = "8162774324609024"]; simp)
  then show "int_to_double (match_1000 ! 6) = Inr (Finite 58)"
    by (simp add: match_1000_def int_to_double_def)
  show "fl (58 - 58) = Finite 0"
    by (simp add: fl_zero)
  show "fl (0 * 0) = Finite 0"
    by (simp add: fl_zero)
  show "fl (0 / 58) = Finite 0"
    by (simp add: fl_zero)
  show "fl (0 + 0) = Finite 0"
    by (simp add: fl_zero)
qed

lemma match_1000_step_7:
  "chi_sq_step_double match_1000 BENFORD_double 1000 (Finite 0) 7 = Inr (Finite 0)"
proof (rule chi_sq_step_double_value [where T = "1000" and b = "(7349874591868649/144115188075855872)" and Ei = "51" and Oi = "51" and d = "0" and p = "0" and q = "0"])
  show "7 < length match_1000" by (simp add: match_1000_def)
  show "7 < length BENFORD_double" by (simp add: BENFORD_double_def BENFORD_def)
  show "int_to_double 1000 = Inr (Finite 1000)" by (rule match_1000_total)
  show "BENFORD_double ! 7 = Finite (7349874591868649/144115188075855872)" by (simp add: BENFORD_double_values)
  show "fl ((7349874591868649/144115188075855872) * 1000) = Finite 51"
    by (rule fl_value [where e = "5" and m = "7177611906121728"]) simp_all
  show "(0::real) < 51" by simp
  have "fl (real_of_int 51) = Finite 51"
    by simp (rule fl_value [where e = "5" and m = "7177611906121728"]; simp)
  then show "int_to_double (match_1000 ! 7) = Inr (Finite 51)"
    by (simp add: match_1000_def int_to_double_def)
  show "fl (51 - 51) = Finite 0"
    by (simp add: fl_zero)
  show "fl (0 * 0) = Finite 0"
    by (simp add: fl_zero)
  show "fl (0 / 51) = Finite 0"
    by (simp add: fl_zero)
  show "fl (0 + 0) = Finite 0"
    by (simp add: fl_zero)
qed

lemma match_1000_step_8:
  "chi_sq_step_double match_1000 BENFORD_double 1000 (Finite 0) 8 = Inr (Finite 0)"
proof (rule chi_sq_step_double_value [where T = "1000" and b = "(3314649325744685/72057594037927936)" and Ei = "46" and Oi = "46" and d = "0" and p = "0" and q = "0"])
  show "8 < length match_1000" by (simp add: match_1000_def)
  show "8 < length BENFORD_double" by (simp add: BENFORD_double_def BENFORD_def)
  show "int_to_double 1000 = Inr (Finite 1000)" by (rule match_1000_total)
  show "BENFORD_double ! 8 = Finite (3314649325744685/72057594037927936)" by (simp add: BENFORD_double_values)
  show "fl ((3314649325744685/72057594037927936) * 1000) = Finite 46"
    by (rule fl_value [where e = "5" and m = "6473924464345088"]) simp_all
  show "(0::real) < 46" by simp
  have "fl (real_of_int 46) = Finite 46"
    by simp (rule fl_value [where e = "5" and m = "6473924464345088"]; simp)
  then show "int_to_double (match_1000 ! 8) = Inr (Finite 46)"
    by (simp add: match_1000_def int_to_double_def)
  show "fl (46 - 46) = Finite 0"
    by (simp add: fl_zero)
  show "fl (0 * 0) = Finite 0"
    by (simp add: fl_zero)
  show "fl (0 / 46) = Finite 0"
    by (simp add: fl_zero)
  show "fl (0 + 0) = Finite 0"
    by (simp add: fl_zero)
qed

lemma match_1000_chi_sq: "chi_sq_double match_1000 BENFORD_double 1000 = Inr (Finite 0)"
  by (simp only: chi_sq_double_def upt_9 chi_sq_loop.simps sum.case match_1000_step_0 match_1000_step_1 match_1000_step_2 match_1000_step_3 match_1000_step_4 match_1000_step_5 match_1000_step_6 match_1000_step_7 match_1000_step_8)

lemma match_1e31_total: "int_to_double 10000000000000000000000000000000 = Inr (Finite 9999999999999999635896294965248)"
proof -
  have "fl (real_of_int 10000000000000000000000000000000) = Finite 9999999999999999635896294965248"
    by simp (rule fl_value [where e = "102" and m = "8881784197001252"]; simp)
  then show ?thesis by (rule int_to_double_value)
qed

lemma match_1e31_step_0:
  "chi_sq_step_double match_1e31 BENFORD_double 10000000000000000000000000000000 (Finite 0) 0 = Inr (Finite 0)"
proof (rule chi_sq_step_double_value [where T = "9999999999999999635896294965248" and b = "(5422333951354077/18014398509481984)" and Ei = "3010000000000000057037970997248" and Oi = "3010000000000000057037970997248" and d = "0" and p = "0" and q = "0"])
  show "0 < length match_1e31" by (simp add: match_1e31_def)
  show "0 < length BENFORD_double" by (simp add: BENFORD_double_def BENFORD_def)
  show "int_to_double 10000000000000000000000000000000 = Inr (Finite 9999999999999999635896294965248)" by (rule match_1e31_total)
  show "BENFORD_double ! 0 = Finite (5422333951354077/18014398509481984)" by (simp add: BENFORD_double_values)
  show "fl ((5422333951354077/18014398509481984) * 9999999999999999635896294965248) = Finite 3010000000000000057037970997248"
    by (rule fl_value [where e = "101" and m = "5346834086594754"]) simp_all
  show "(0::real) < 3010000000000000057037970997248" by simp
  have "fl (real_of_int 3010000000000000000000000000000) = Finite 3010000000000000057037970997248"
    by simp (rule fl_value [where e = "101" and m = "5346834086594754"]; simp)
  then show "int_to_double (match_1e31 ! 0) = Inr (Finite 3010000000000000057037970997248)"
    by (simp add: match_1e31_def int_to_double_def)
  show "fl (3010000000000000057037970997248 - 3010000000000000057037970997248) = Finite 0"
    by (simp add: fl_zero)
  show "fl (0 * 0) = Finite 0"
    by (simp add: fl_zero)
  show "fl (0 / 3010000000000000057037970997248) = Finite 0"
    by (simp add: fl_zero)
  show "fl (0 + 0) = Finite 0"
    by (simp add: fl_zero)
qed

lemma match_1e31_step_1:
  "chi_sq_step_double match_1e31 BENFORD_double 10000000000000000000000000000000 (Finite 0) 1 = Inr (Finite (3243744756149909/72057594037927936))"
proof (rule chi_sq_step_double_value [where T = "9999999999999999635896294965248" and b = "(3170534137668829/18014398509481984)" and Ei = "1759999999999999821075957415936" and Oi = "1760000000000000102550934126592" and d = "281474976710656" and p = "79228162514264337593543950336" and q = "(3243744756149909/72057594037927936)"])
  show "1 < length match_1e31" by (simp add: match_1e31_def)
  show "1 < length BENFORD_double" by (simp add: BENFORD_double_def BENFORD_def)
  show "int_to_double 10000000000000000000000000000000 = Inr (Finite 9999999999999999635896294965248)" by (rule match_1e31_total)
  show "BENFORD_double ! 1 = Finite (3170534137668829/18014398509481984)" by (simp add: BENFORD_double_values)
  show "fl ((3170534137668829/18014398509481984) * 9999999999999999635896294965248) = Finite 1759999999999999821075957415936"
    by (rule fl_value [where e = "100" and m = "6252776074688881"]) simp_all
  show "(0::real) < 1759999999999999821075957415936" by simp
  have "fl (real_of_int 1760000000000000000000000000000) = Finite 1760000000000000102550934126592"
    by simp (rule fl_value [where e = "100" and m = "6252776074688882"]; simp)
  then show "int_to_double (match_1e31 ! 1) = Inr (Finite 1760000000000000102550934126592)"
    by (simp add: match_1e31_def int_to_double_def)
  show "fl (1760000000000000102550934126592 - 1759999999999999821075957415936) = Finite 281474976710656"
    by (rule fl_value [where e = "48" and m = "4503599627370496"]) simp_all
  show "fl (281474976710656 * 281474976710656) = Finite 79228162514264337593543950336"
    by (rule fl_value [where e = "96" and m = "4503599627370496"]) simp_all
  show "fl (79228162514264337593543950336 / 1759999999999999821075957415936) = Finite (3243744756149909/72057594037927936)"
    by (rule fl_value [where e = "(- 5)" and m = "6487489512299818"]) simp_all
  show "fl (0 + (3243744756149909/72057594037927936)) = Finite (3243744756149909/72057594037927936)"
    by (rule fl_value [where e = "(- 5)" and m = "6487489512299818"]) simp_all
qed

lemma match_1e31_step_2:
  "chi_sq_step_double match_1e31 BENFORD_double 10000000000000000000000000000000 (Finite (3243744756149909/72057594037927936)) 2 = Inr (Finite (3243744756149909/72057594037927936))"
proof (rule chi_sq_step_double_value [where T = "9999999999999999635896294965248" and b = "(1/8)" and Ei = "1249999999999999954487036870656" and Oi = "1249999999999999954487036870656" and d = "0" and p = "0" and q = "0"])
  show "2 < length match_1e31" by (simp add: match_1e31_def)
  show "2 < length BENFORD_double" by (simp add: BENFORD_double_def BENFORD_def)
  show "int_to_double 10000000000000000000000000000000 = Inr (Finite 9999999999999999635896294965248)" by (rule match_1e31_total)
  show "BENFORD_double ! 2 = Finite (1/8)" by (simp add: BENFORD_double_values)
  show "fl ((1/8) * 9999999999999999635896294965248) = Finite 1249999999999999954487036870656"
    by (rule fl_value [where e = "99" and m = "8881784197001252"]) simp_all
  show "(0::real) < 1249999999999999954487036870656" by simp
  have "fl (real_of_int 1250000000000000000000000000000) = Finite 1249999999999999954487036870656"
    by simp (rule fl_value [where e = "99" and m = "8881784197001252"]; simp)
  then show "int_to_double (match_1e31 ! 2) = Inr (Finite 1249999999999999954487036870656)"
    by (simp add: match_1e31_def int_to_double_def)
  show "fl (1249999999999999954487036870656 - 1249999999999999954487036870656) = Finite 0"
    by (simp add: fl_zero)
  show "fl (0 * 0) = Finite 0"
    by (simp add: fl_zero)
  show "fl (0 / 1249999999999999954487036870656) = Finite 0"
    by (simp add: fl_zero)
  show "fl ((3243744756149909/72057594037927936) + 0) = Finite (3243744756149909/72057594037927936)"
    by (rule fl_value [where e = "(- 5)" and m = "6487489512299818"]) simp_all
qed

lemma match_1e31_step_3:
  "chi_sq_step_double match_1e31 BENFORD_double 10000000000000000000000000000000 (Finite (3243744756149909/72057594037927936)) 3 = Inr (Finite (3243744756149909/72057594037927936))"
proof (rule chi_sq_step_double_value [where T = "9999999999999999635896294965248" and b = "(3494793310839505/36028797018963968)" and Ei = "970000000000000027732335394816" and Oi = "970000000000000027732335394816" and d = "0" and p = "0" and q = "0"])
  show "3 < length match_1e31" by (simp add: match_1e31_def)
  show "3 < length BENFORD_double" by (simp add: BENFORD_double_def BENFORD_def)
  show "int_to_double 10000000000000000000000000000000 = Inr (Finite 9999999999999999635896294965248)" by (rule match_1e31_total)
  show "BENFORD_double ! 3 = Finite (3494793310839505/36028797018963968)" by (simp add: BENFORD_double_values)
  show "fl ((3494793310839505/36028797018963968) * 9999999999999999635896294965248) = Finite 970000000000000027732335394816"
    by (rule fl_value [where e = "99" and m = "6892264536872972"]) simp_all
  show "(0::real) < 970000000000000027732335394816" by simp
  have "fl (real_of_int 970000000000000000000000000000) = Finite 970000000000000027732335394816"
    by simp (rule fl_value [where e = "99" and m = "6892264536872972"]; simp)
  then show "int_to_double (match_1e31 ! 3) = Inr (Finite 970000000000000027732335394816)"
    by (simp add: match_1e31_def int_to_double_def)
  show "fl (970000000000000027732335394816 - 970000000000000027732335394816) = Finite 0"
    by (simp add: fl_zero)
  show "fl (0 * 0) = Finite 0"
    by (simp add: fl_zero)
  show "fl (0 / 970000000000000027732335394816) = Finite 0"
    by (simp add: fl_zero)
  show "fl ((3243744756149909/72057594037927936) + 0) = Finite (3243744756149909/72057594037927936)"
    by (rule fl_value [where e = "(- 5)" and m = "6487489512299818"]) simp_all
qed

lemma match_1e31_step_4:
  "chi_sq_step_double match_1e31 BENFORD_double 10000000000000000000000000000000 (Finite (3243744756149909/72057594037927936)) 4 = Inr (Finite (3243744756149909/72057594037927936))"
proof (rule chi_sq_step_double_value [where T = "9999999999999999635896294965248" and b = "(5692549928996307/72057594037927936)" and Ei = "789999999999999934081110376448" and Oi = "789999999999999934081110376448" and d = "0" and p = "0" and q = "0"])
  show "4 < length match_1e31" by (simp add: match_1e31_def)
  show "4 < length BENFORD_double" by (simp add: BENFORD_double_def BENFORD_def)
  show "int_to_double 10000000000000000000000000000000 = Inr (Finite 9999999999999999635896294965248)" by (rule match_1e31_total)
  show "BENFORD_double ! 4 = Finite (5692549928996307/72057594037927936)" by (simp add: BENFORD_double_values)
  show "fl ((5692549928996307/72057594037927936) * 9999999999999999635896294965248) = Finite 789999999999999934081110376448"
    by (rule fl_value [where e = "99" and m = "5613287612504791"]) simp_all
  show "(0::real) < 789999999999999934081110376448" by simp
  have "fl (real_of_int 790000000000000000000000000000) = Finite 789999999999999934081110376448"
    by simp (rule fl_value [where e = "99" and m = "5613287612504791"]; simp)
  then show "int_to_double (match_1e31 ! 4) = Inr (Finite 789999999999999934081110376448)"
    by (simp add: match_1e31_def int_to_double_def)
  show "fl (789999999999999934081110376448 - 789999999999999934081110376448) = Finite 0"
    by (simp add: fl_zero)
  show "fl (0 * 0) = Finite 0"
    by (simp add: fl_zero)
  show "fl (0 / 789999999999999934081110376448) = Finite 0"
    by (simp add: fl_zero)
  show "fl ((3243744756149909/72057594037927936) + 0) = Finite (3243744756149909/72057594037927936)"
    by (rule fl_value [where e = "(- 5)" and m = "6487489512299818"]) simp_all
qed

lemma match_1e31_step_5:
  "chi_sq_step_double match_1e31 BENFORD_double 10000000000000000000000000000000 (Finite (3243744756149909/72057594037927936)) 5 = Inr (Finite (3243744756149909/72057594037927936))"
proof (rule chi_sq_step_double_value [where T = "9999999999999999635896294965248" and b = "(1206964700135293/18014398509481984)" and Ei = "669999999999999965471952601088" and Oi = "669999999999999965471952601088" and d = "0" and p = "0" and q = "0"])
  show "5 < length match_1e31" by (simp add: match_1e31_def)
  show "5 < length BENFORD_double" by (simp add: BENFORD_double_def BENFORD_def)
  show "int_to_double 10000000000000000000000000000000 = Inr (Finite 9999999999999999635896294965248)" by (rule match_1e31_total)
  show "BENFORD_double ! 5 = Finite (1206964700135293/18014398509481984)" by (simp add: BENFORD_double_values)
  show "fl ((1206964700135293/18014398509481984) * 9999999999999999635896294965248) = Finite 669999999999999965471952601088"
    by (rule fl_value [where e = "99" and m = "4760636329592671"]) simp_all
  show "(0::real) < 669999999999999965471952601088" by simp
  have "fl (real_of_int 670000000000000000000000000000) = Finite 669999999999999965471952601088"
    by simp (rule fl_value [where e = "99" and m = "4760636329592671"]; simp)
  then show "int_to_double (match_1e31 ! 5) = Inr (Finite 669999999999999965471952601088)"
    by (simp add: match_1e31_def int_to_double_def)
  show "fl (669999999999999965471952601088 - 669999999999999965471952601088) = Finite 0"
    by (simp add: fl_zero)
  show "fl (0 * 0) = Finite 0"
    by (simp add: fl_zero)
  show "fl (0 / 669999999999999965471952601088) = Finite 0"
    by (simp add: fl_zero)
  show "fl ((3243744756149909/72057594037927936) + 0) = Finite (3243744756149909/72057594037927936)"
    by (rule fl_value [where e = "(- 5)" and m = "6487489512299818"]) simp_all
qed

lemma match_1e31_step_6:
  "chi_sq_step_double match_1e31 BENFORD_double 10000000000000000000000000000000 (Finite (3243744756149909/72057594037927936)) 6 = Inr (Finite (3243744756149909/72057594037927936))"
proof (rule chi_sq_step_double_value [where T = "9999999999999999635896294965248" and b = "(8358680908399641/144115188075855872)" and Ei = "579999999999999989015084269568" and Oi = "579999999999999989015084269568" and d = "0" and p = "0" and q = "0"])
  show "6 < length match_1e31" by (simp add: match_1e31_def)
  show "6 < length BENFORD_double" by (simp add: BENFORD_double_def BENFORD_def)
  show "int_to_double 10000000000000000000000000000000 = Inr (Finite 9999999999999999635896294965248)" by (rule match_1e31_total)
  show "BENFORD_double ! 6 = Finite (8358680908399641/144115188075855872)" by (simp add: BENFORD_double_values)
  show "fl ((8358680908399641/144115188075855872) * 9999999999999999635896294965248) = Finite 579999999999999989015084269568"
    by (rule fl_value [where e = "98" and m = "8242295734817162"]) simp_all
  show "(0::real) < 579999999999999989015084269568" by simp
  have "fl (real_of_int 580000000000000000000000000000) = Finite 579999999999999989015084269568"
    by simp (rule fl_value [where e = "98" and m = "8242295734817162"]; simp)
  then show "int_to_double (match_1e31 ! 6) = Inr (Finite 579999999999999989015084269568)"
    by (simp add: match_1e31_def int_to_double_def)
  show "fl (579999999999999989015084269568 - 579999999999999989015084269568) = Finite 0"
    by (simp add: fl_zero)
  show "fl (0 * 0) = Finite 0"
    by (simp add: fl_zero)
  show "fl (0 / 579999999999999989015084269568) = Finite 0"
    by (simp add: fl_zero)
  show "fl ((3243744756149909/72057594037927936) + 0) = Finite (3243744756149909/72057594037927936)"
    by (rule fl_value [where e = "(- 5)" and m = "6487489512299818"]) simp_all
qed

lemma match_1e31_step_7:
  "chi_sq_step_double match_1e31 BENFORD_double 10000000000000000000000000000000 (Finite (3243744756149909/72057594037927936)) 7 = Inr (Finite (3943375978064595/72057594037927936))"
proof (rule chi_sq_step_double_value [where T = "9999999999999999635896294965248" and b = "(7349874591868649/144115188075855872)" and Ei = "509999999999999936957664722944" and Oi = "510000000000000007326408900608" and d = "70368744177664" and p = "4951760157141521099596496896" and q = "(2798524887658745/288230376151711744)"])
  show "7 < length match_1e31" by (simp add: match_1e31_def)
  show "7 < length BENFORD_double" by (simp add: BENFORD_double_def BENFORD_def)
  show "int_to_double 10000000000000000000000000000000 = Inr (Finite 9999999999999999635896294965248)" by (rule match_1e31_total)
  show "BENFORD_double ! 7 = Finite (7349874591868649/144115188075855872)" by (simp add: BENFORD_double_values)
  show "fl ((7349874591868649/144115188075855872) * 9999999999999999635896294965248) = Finite 509999999999999936957664722944"
    by (rule fl_value [where e = "98" and m = "7247535904753021"]) simp_all
  show "(0::real) < 509999999999999936957664722944" by simp
  have "fl (real_of_int 510000000000000000000000000000) = Finite 510000000000000007326408900608"
    by simp (rule fl_value [where e = "98" and m = "7247535904753022"]; simp)
  then show "int_to_double (match_1e31 ! 7) = Inr (Finite 510000000000000007326408900608)"
    by (simp add: match_1e31_def int_to_double_def)
  show "fl (510000000000000007326408900608 - 509999999999999936957664722944) = Finite 70368744177664"
    by (rule fl_value [where e = "46" and m = "4503599627370496"]) simp_all
  show "fl (70368744177664 * 70368744177664) = Finite 4951760157141521099596496896"
    by (rule fl_value [where e = "92" and m = "4503599627370496"]) simp_all
  show "fl (4951760157141521099596496896 / 509999999999999936957664722944) = Finite (2798524887658745/288230376151711744)"
    by (rule fl_value [where e = "(- 7)" and m = "5597049775317490"]) simp_all
  show "fl ((3243744756149909/72057594037927936) + (2798524887658745/288230376151711744)) = Finite (3943375978064595/72057594037927936)"
    by (rule fl_value [where e = "(- 5)" and m = "7886751956129190"]) simp_all
qed

lemma match_1e31_step_8:
  "chi_sq_step_double match_1e31 BENFORD_double 10000000000000000000000000000000 (Finite (3943375978064595/72057594037927936)) 8 = Inr (Finite (2359527035963265/36028797018963968))"
proof (rule chi_sq_step_double_value [where T = "9999999999999999635896294965248" and b = "(3314649325744685/72057594037927936)" and Ei = "459999999999999950037182316544" and Oi = "460000000000000020405926494208" and d = "70368744177664" and p = "4951760157141521099596496896" and q = "(3102712375447739/288230376151711744)"])
  show "8 < length match_1e31" by (simp add: match_1e31_def)
  show "8 < length BENFORD_double" by (simp add: BENFORD_double_def BENFORD_def)
  show "int_to_double 10000000000000000000000000000000 = Inr (Finite 9999999999999999635896294965248)" by (rule match_1e31_total)
  show "BENFORD_double ! 8 = Finite (3314649325744685/72057594037927936)" by (simp add: BENFORD_double_values)
  show "fl ((3314649325744685/72057594037927936) * 9999999999999999635896294965248) = Finite 459999999999999950037182316544"
    by (rule fl_value [where e = "98" and m = "6536993168992921"]) simp_all
  show "(0::real) < 459999999999999950037182316544" by simp
  have "fl (real_of_int 460000000000000000000000000000) = Finite 460000000000000020405926494208"
    by simp (rule fl_value [where e = "98" and m = "6536993168992922"]; simp)
  then show "int_to_double (match_1e31 ! 8) = Inr (Finite 460000000000000020405926494208)"
    by (simp add: match_1e31_def int_to_double_def)
  show "fl (460000000000000020405926494208 - 459999999999999950037182316544) = Finite 70368744177664"
    by (rule fl_value [where e = "46" and m = "4503599627370496"]) simp_all
  show "fl (70368744177664 * 70368744177664) = Finite 4951760157141521099596496896"
    by (rule fl_value [where e = "92" and m = "4503599627370496"]) simp_all
  show "fl (4951760157141521099596496896 / 459999999999999950037182316544) = Finite (3102712375447739/288230376151711744)"
    by (rule fl_value [where e = "(- 7)" and m = "6205424750895478"]) simp_all
  show "fl ((3943375978064595/72057594037927936) + (3102712375447739/288230376151711744)) = Finite (2359527035963265/36028797018963968)"
    by (rule fl_value [where e = "(- 4)" and m = "4719054071926530"]) simp_all
qed

lemma match_1e31_chi_sq: "chi_sq_double match_1e31 BENFORD_double 10000000000000000000000000000000 = Inr (Finite (2359527035963265/36028797018963968))"
  by (simp only: chi_sq_double_def upt_9 chi_sq_loop.simps sum.case match_1e31_step_0 match_1e31_step_1 match_1e31_step_2 match_1e31_step_3 match_1e31_step_4 match_1e31_step_5 match_1e31_step_6 match_1e31_step_7 match_1e31_step_8)

lemma near_1e31_total: "int_to_double 10000000000000000000000000000000 = Inr (Finite 9999999999999999635896294965248)"
proof -
  have "fl (real_of_int 10000000000000000000000000000000) = Finite 9999999999999999635896294965248"
    by simp (rule fl_value [where e = "102" and m = "8881784197001252"]; simp)
  then show ?thesis by (rule int_to_double_value)
qed

lemma near_1e31_step_0:
  "chi_sq_step_double near_1e31 BENFORD_double 10000000000000000000000000000000 (Finite 0) 0 = Inr (Finite 0)"
proof (rule chi_sq_step_double_value [where T = "9999999999999999635896294965248" and b = "(5422333951354077/18014398509481984)" and Ei = "3010000000000000057037970997248" and Oi = "3010000000000000057037970997248" and d = "0" and p = "0" and q = "0"])
  show "0 < length near_1e31" by (simp add: near_1e31_def)
  show "0 < length BENFORD_double" by (simp add: BENFORD_double_def BENFORD_def)
  show "int_to_double 10000000000000000000000000000000 = Inr (Finite 9999999999999999635896294965248)" by (rule near_1e31_total)
  show "BENFORD_double ! 0 = Finite (5422333951354077/18014398509481984)" by (simp add: BENFORD_double_values)
  show "fl ((5422333951354077/18014398509481984) * 9999999999999999635896294965248) = Finite 3010000000000000057037970997248"
    by (rule fl_value [where e = "101" and m = "5346834086594754"]) simp_all
  show "(0::real) < 3010000000000000057037970997248" by simp
  have "fl (real_of_int 3010000000000000282217952365772) = Finite 3010000000000000057037970997248"
    by simp (rule fl_value [where e = "101" and m = "5346834086594754"]; simp)
  then show "int_to_double (near_1e31 ! 0) = Inr (Finite 3010000000000000057037970997248)"
    by (simp add: near_1e31_def int_to_double_def)
  show "fl (3010000000000000057037970997248 - 3010000000000000057037970997248) = Finite 0"
    by (simp add: fl_zero)
  show "fl (0 * 0) = Finite 0"
    by (simp add: fl_zero)
  show "fl (0 / 3010000000000000057037970997248) = Finite 0"
    by (simp add: fl_zero)
  show "fl (0 + 0) = Finite 0"
    by (simp add: fl_zero)
qed

lemma near_1e31_step_1:
  "chi_sq_step_double near_1e31 BENFORD_double 10000000000000000000000000000000 (Finite 0) 1 = Inr (Finite 0)"
proof (rule chi_sq_step_double_value [where T = "9999999999999999635896294965248" and b = "(3170534137668829/18014398509481984)" and Ei = "1759999999999999821075957415936" and Oi = "1759999999999999821075957415936" and d = "0" and p = "0" and q = "0"])
  show "1 < length near_1e31" by (simp add: near_1e31_def)
  show "1 < length BENFORD_double" by (simp add: BENFORD_double_def BENFORD_def)
  show "int_to_double 10000000000000000000000000000000 = Inr (Finite 9999999999999999635896294965248)" by (rule near_1e31_total)
  show "BENFORD_double ! 1 = Finite (3170534137668829/18014398509481984)" by (simp add: BENFORD_double_values)
  show "fl ((3170534137668829/18014398509481984) * 9999999999999999635896294965248) = Finite 1759999999999999821075957415936"
    by (rule fl_value [where e = "100" and m = "6252776074688881"]) simp_all
  show "(0::real) < 1759999999999999821075957415936" by simp
  have "fl (real_of_int 1759999999999999933665948100198) = Finite 1759999999999999821075957415936"
    by simp (rule fl_value [where e = "100" and m = "6252776074688881"]; simp)
  then show "int_to_double (near_1e31 ! 1) = Inr (Finite 1759999999999999821075957415936)"
    by (simp add: near_1e31_def int_to_double_def)
  show "fl (1759999999999999821075957415936 - 1759999999999999821075957415936) = Finite 0"
    by (simp add: fl_zero)
  show "fl (0 * 0) = Finite 0"
    by (simp add: fl_zero)
  show "fl (0 / 1759999999999999821075957415936) = Finite 0"
    by (simp add: fl_zero)
  show "fl (0 + 0) = Finite 0"
    by (simp add: fl_zero)
qed

lemma near_1e31_step_2:
  "chi_sq_step_double near_1e31 BENFORD_double 10000000000000000000000000000000 (Finite 0) 2 = Inr (Finite 0)"
proof (rule chi_sq_step_double_value [where T = "9999999999999999635896294965248" and b = "(1/8)" and Ei = "1249999999999999954487036870656" and Oi = "1249999999999999954487036870656" and d = "0" and p = "0" and q = "0"])
  show "2 < length near_1e31" by (simp add: near_1e31_def)
  show "2 < length BENFORD_double" by (simp add: BENFORD_double_def BENFORD_def)
  show "int_to_double 10000000000000000000000000000000 = Inr (Finite 9999999999999999635896294965248)" by (rule near_1e31_total)
  show "BENFORD_double ! 2 = Finite (1/8)" by (simp add: BENFORD_double_values)
  show "fl ((1/8) * 9999999999999999635896294965248) = Finite 1249999999999999954487036870656"
    by (rule fl_value [where e = "99" and m = "8881784197001252"]) simp_all
  show "(0::real) < 1249999999999999954487036870656" by simp
  have "fl (real_of_int 1249999999999999980820769852622) = Finite 1249999999999999954487036870656"
    by simp (rule fl_value [where e = "99" and m = "8881784197001252"]; simp)
  then show "int_to_double (near_1e31 ! 2) = Inr (Finite 1249999999999999954487036870656)"
    by (simp add: near_1e31_def int_to_double_def)
  show "fl (1249999999999999954487036870656 - 1249999999999999954487036870656) = Finite 0"
    by (simp add: fl_zero)
  show "fl (0 * 0) = Finite 0"
    by (simp add: fl_zero)
  show "fl (0 / 1249999999999999954487036870656) = Finite 0"
    by (simp add: fl_zero)
  show "fl (0 + 0) = Finite 0"
    by (simp add: fl_zero)
qed

lemma near_1e31_step_3:
  "chi_sq_step_double near_1e31 BENFORD_double 10000000000000000000000000000000 (Finite 0) 3 = Inr (Finite 0)"
proof (rule chi_sq_step_double_value [where T = "9999999999999999635896294965248" and b = "(3494793310839505/36028797018963968)" and Ei = "970000000000000027732335394816" and Oi = "970000000000000027732335394816" and d = "0" and p = "0" and q = "0"])
  show "3 < length near_1e31" by (simp add: near_1e31_def)
  show "3 < length BENFORD_double" by (simp add: BENFORD_double_def BENFORD_def)
  show "int_to_double 10000000000000000000000000000000 = Inr (Finite 9999999999999999635896294965248)" by (rule near_1e31_total)
  show "BENFORD_double ! 3 = Finite (3494793310839505/36028797018963968)" by (simp add: BENFORD_double_values)
  show "fl ((3494793310839505/36028797018963968) * 9999999999999999635896294965248) = Finite 970000000000000027732335394816"
    by (rule fl_value [where e = "99" and m = "6892264536872972"]) simp_all
  show "(0::real) < 970000000000000027732335394816" by simp
  have "fl (real_of_int 970000000000000027732335394816) = Finite 970000000000000027732335394816"
    by simp (rule fl_value [where e = "99" and m = "6892264536872972"]; simp)
  then show "int_to_double (near_1e31 ! 3) = Inr (Finite 970000000000000027732335394816)"
    by (simp add: near_1e31_def int_to_double_def)
  show "fl (970000000000000027732335394816 - 970000000000000027732335394816) = Finite 0"
    by (simp add: fl_zero)
  show "fl (0 * 0) = Finite 0"
    by (simp add: fl_zero)
  show "fl (0 / 970000000000000027732335394816) = Finite 0"
    by (simp add: fl_zero)
  show "fl (0 + 0) = Finite 0"
    by (simp add: fl_zero)
qed

lemma near_1e31_step_4:
  "chi_sq_step_double near_1e31 BENFORD_double 10000000000000000000000000000000 (Finite 0) 4 = Inr (Finite 0)"
proof (rule chi_sq_step_double_value [where T = "9999999999999999635896294965248" and b = "(5692549928996307/72057594037927936)" and Ei = "789999999999999934081110376448" and Oi = "789999999999999934081110376448" and d = "0" and p = "0" and q = "0"])
  show "4 < length near_1e31" by (simp add: near_1e31_def)
  show "4 < length BENFORD_double" by (simp add: BENFORD_double_def BENFORD_def)
  show "int_to_double 10000000000000000000000000000000 = Inr (Finite 9999999999999999635896294965248)" by (rule near_1e31_total)
  show "BENFORD_double ! 4 = Finite (5692549928996307/72057594037927936)" by (simp add: BENFORD_double_values)
  show "fl ((5692549928996307/72057594037927936) * 9999999999999999635896294965248) = Finite 789999999999999934081110376448"
    by (rule fl_value [where e = "99" and m = "5613287612504791"]) simp_all
  show "(0::real) < 789999999999999934081110376448" by simp
  have "fl (real_of_int 789999999999999934081110376448) = Finite 789999999999999934081110376448"
    by simp (rule fl_value [where e = "99" and m = "5613287612504791"]; simp)
  then show "int_to_double (near_1e31 ! 4) = Inr (Finite 789999999999999934081110376448)"
    by (simp add: near_1e31_def int_to_double_def)
  show "fl (789999999999999934081110376448 - 789999999999999934081110376448) = Finite 0"
    by (simp add: fl_zero)
  show "fl (0 * 0) = Finite 0"
    by (simp add: fl_zero)
  show "fl (0 / 789999999999999934081110376448) = Finite 0"
    by (simp add: fl_zero)
  show "fl (0 + 0) = Finite 0"
    by (simp add: fl_zero)
qed

lemma near_1e31_step_5:
  "chi_sq_step_double near_1e31 BENFORD_double 10000000000000000000000000000000 (Finite 0) 5 = Inr (Finite 0)"
proof (rule chi_sq_step_double_value [where T = "9999999999999999635896294965248" and b = "(1206964700135293/18014398509481984)" and Ei = "669999999999999965471952601088" and Oi = "669999999999999965471952601088" and d = "0" and p = "0" and q = "0"])
  show "5 < length near_1e31" by (simp add: near_1e31_def)
  show "5 < length BENFORD_double" by (simp add: BENFORD_double_def BENFORD_def)
  show "int_to_double 10000000000000000000000000000000 = Inr (Finite 9999999999999999635896294965248)" by (rule near_1e31_total)
  show "BENFORD_double ! 5 = Finite (1206964700135293/18014398509481984)" by (simp add: BENFORD_double_values)
  show "fl ((1206964700135293/18014398509481984) * 9999999999999999635896294965248) = Finite 669999999999999965471952601088"
    by (rule fl_value [where e = "99" and m = "4760636329592671"]) simp_all
  show "(0::real) < 669999999999999965471952601088" by simp
  have "fl (real_of_int 669999999999999965471952601088) = Finite 669999999999999965471952601088"
    by simp (rule fl_value [where e = "99" and m = "4760636329592671"]; simp)
  then show "int_to_double (near_1e31 ! 5) = Inr (Finite 669999999999999965471952601088)"
    by (simp add: near_1e31_def int_to_double_def)
  show "fl (669999999999999965471952601088 - 669999999999999965471952601088) = Finite 0"
    by (simp add: fl_zero)
  show "fl (0 * 0) = Finite 0"
    by (simp add: fl_zero)
  show "fl (0 / 669999999999999965471952601088) = Finite 0"
    by (simp add: fl_zero)
  show "fl (0 + 0) = Finite 0"
    by (simp add: fl_zero)
qed

lemma near_1e31_step_6:
  "chi_sq_step_double near_1e31 BENFORD_double 10000000000000000000000000000000 (Finite 0) 6 = Inr (Finite 0)"
proof (rule chi_sq_step_double_value [where T = "9999999999999999635896294965248" and b = "(8358680908399641/144115188075855872)" and Ei = "579999999999999989015084269568" and Oi = "579999999999999989015084269568" and d = "0" and p = "0" and q = "0"])
  show "6 < length near_1e31" by (simp add: near_1e31_def)
  show "6 < length BENFORD_double" by (simp add: BENFORD_double_def BENFORD_def)
  show "int_to_double 10000000000000000000000000000000 = Inr (Finite 9999999999999999635896294965248)" by (rule near_1e31_total)
  show "BENFORD_double ! 6 = Finite (8358680908399641/144115188075855872)" by (simp add: BENFORD_double_values)
  show "fl ((8358680908399641/144115188075855872) * 9999999999999999635896294965248) = Finite 579999999999999989015084269568"
    by (rule fl_value [where e = "98" and m = "8242295734817162"]) simp_all
  show "(0::real) < 579999999999999989015084269568" by simp
  have "fl (real_of_int 579999999999999989015084269568) = Finite 579999999999999989015084269568"
    by simp (rule fl_value [where e = "98" and m = "8242295734817162"]; simp)
  then show "int_to_double (near_1e31 ! 6) = Inr (Finite 579999999999999989015084269568)"
    by (simp add: near_1e31_def int_to_double_def)
  show "fl (579999999999999989015084269568 - 579999999999999989015084269568) = Finite 0"
    by (simp add: fl_zero)
  show "fl (0 * 0) = Finite 0"
    by (simp add: fl_zero)
  show "fl (0 / 579999999999999989015084269568) = Finite 0"
    by (simp add: fl_zero)
  show "fl (0 + 0) = Finite 0"
    by (simp add: fl_zero)
qed

lemma near_1e31_step_7:
  "chi_sq_step_double near_1e31 BENFORD_double 10000000000000000000000000000000 (Finite 0) 7 = Inr (Finite 0)"
proof (rule chi_sq_step_double_value [where T = "9999999999999999635896294965248" and b = "(7349874591868649/144115188075855872)" and Ei = "509999999999999936957664722944" and Oi = "509999999999999936957664722944" and d = "0" and p = "0" and q = "0"])
  show "7 < length near_1e31" by (simp add: near_1e31_def)
  show "7 < length BENFORD_double" by (simp add: BENFORD_double_def BENFORD_def)
  show "int_to_double 10000000000000000000000000000000 = Inr (Finite 9999999999999999635896294965248)" by (rule near_1e31_total)
  show "BENFORD_double ! 7 = Finite (7349874591868649/144115188075855872)" by (simp add: BENFORD_double_values)
  show "fl ((7349874591868649/144115188075855872) * 9999999999999999635896294965248) = Finite 509999999999999936957664722944"
    by (rule fl_value [where e = "98" and m = "7247535904753021"]) simp_all
  show "(0::real) < 509999999999999936957664722944" by simp
  have "fl (real_of_int 509999999999999936957664722944) = Finite 509999999999999936957664722944"
    by simp (rule fl_value [where e = "98" and m = "7247535904753021"]; simp)
  then show "int_to_double (near_1e31 ! 7) = Inr (Finite 509999999999999936957664722944)"
    by (simp add: near_1e31_def int_to_double_def)
  show "fl (509999999999999936957664722944 - 509999999999999936957664722944) = Finite 0"
    by (simp add: fl_zero)
  show "fl (0 * 0) = Finite 0"
    by (simp add: fl_zero)
  show "fl (0 / 509999999999999936957664722944) = Finite 0"
    by (simp add: fl_zero)
  show "fl (0 + 0) = Finite 0"
    by (simp add: fl_zero)
qed

lemma near_1e31_step_8:
  "chi_sq_step_double near_1e31 BENFORD_double 10000000000000000000000000000000 (Finite 0) 8 = Inr (Finite 0)"
proof (rule chi_sq_step_double_value [where T = "9999999999999999635896294965248" and b = "(3314649325744685/72057594037927936)" and Ei = "459999999999999950037182316544" and Oi = "459999999999999950037182316544" and d = "0" and p = "0" and q = "0"])
  show "8 < length near_1e31" by (simp add: near_1e31_def)
  show "8 < length BENFORD_double" by (simp add: BENFORD_double_def BENFORD_def)
  show "int_to_double 10000000000000000000000000000000 = Inr (Finite 9999999999999999635896294965248)" by (rule near_1e31_total)
  show "BENFORD_double ! 8 = Finite (3314649325744685/72057594037927936)" by (simp add: BENFORD_double_values)
  show "fl ((3314649325744685/72057594037927936) * 9999999999999999635896294965248) = Finite 459999999999999950037182316544"
    by (rule fl_value [where e = "98" and m = "6536993168992921"]) simp_all
  show "(0::real) < 459999999999999950037182316544" by simp
  have "fl (real_of_int 459999999999999950037182316544) = Finite 459999999999999950037182316544"
    by simp (rule fl_value [where e = "98" and m = "6536993168992921"]; simp)
  then show "int_to_double (near_1e31 ! 8) = Inr (Finite 459999999999999950037182316544)"
    by (simp add: near_1e31_def int_to_double_def)
  show "fl (459999999999999950037182316544 - 459999999999999950037182316544) = Finite 0"
    by (simp add: fl_zero)
  show "fl (0 * 0) = Finite 0"
    by (simp add: fl_zero)
  show "fl (0 / 459999999999999950037182316544) = Finite 0"
    by (simp add: fl_zero)
  show "fl (0 + 0) = Finite 0"
    by (simp add: fl_zero)
qed

lemma near_1e31_chi_sq: "chi_sq_double near_1e31 BENFORD_double 10000000000000000000000000000000 = Inr (Finite 0)"
  by (simp only: chi_sq_double_def upt_9 chi_sq_loop.simps sum.case near_1e31_step_0 near_1e31_step_1 near_1e31_step_2 near_1e31_step_3 near_1e31_step_4 near_1e31_step_5 near_1e31_step_6 near_1e31_step_7 near_1e31_step_8)

subsection \<open>Score values in double precision\<close>




text \<open>
  Claim C6: for two histograms with the same total, the one for which the function
  computes the greater (or equal) statistic has the smaller (or equal) rounded score.
  Whenever the histogram with the greater statistic has a score at all, so has the other.
\<close>

theorem score_monotone_in_computed_chi_sq:
  assumes "histogram c1 tot" "histogram c2 tot"
    and "chi_sq_double c1 BENFORD_double tot = Inr x1"
    and "chi_sq_double c2 BENFORD_double tot = Inr x2"
    and "float_le x2 x1"
    and "chi_square_score_double c1 BENFORD_double tot = Inr s1"
  shows "\<exists>s2. chi_square_score_double c2 BENFORD_double tot = Inr s2 \<and> float_le s1 s2"
proof -
  obtain a1 where a1: "x1 = Finite a1"
    using histogram_chi_sq_finite [OF assms(1,3)] by blast
  obtain a2 where a2: "x2 = Finite a2"
    using histogram_chi_sq_finite [OF assms(2,4)] by blast
  have le: "a2 \<le> a1" using assms(5) by (simp add: a1 a2)
  obtain y1 y2 where "s1 = Finite y1"
    "chi_square_score_double c2 BENFORD_double tot = Inr (Finite y2)" "y1 \<le> y2"
    using score_monotone_double [OF assms(3,4) [unfolded a1 a2] le assms(6)] by blast
  then show ?thesis by simp
qed

theorem score_monotone_in_computed_chi_sq_witness:
  "histogram match_1e31 10000000000000000000000000000000
   \<and> histogram near_1e31 10000000000000000000000000000000
   \<and> chi_sq_double match_1e31 BENFORD_double 10000000000000000000000000000000
       = Inr (Finite (2359527035963265/36028797018963968))
   \<and> chi_sq_double near_1e31 BENFORD_double 10000000000000000000000000000000 = Inr (Finite 0)
   \<and> float_le (Finite 0) (Finite (2359527035963265/36028797018963968))
   \<and> chi_square_score_double match_1e31 BENFORD_double 10000000000000000000000000000000
       = Inr (Finite 88)
   \<and> (\<exists>s2. chi_square_score_double near_1e31 BENFORD_double 10000000000000000000000000000000
               = Inr s2
         \<and> float_le (Finite 88) s2)"
proof -
  have h1: "histogram match_1e31 10000000000000000000000000000000"
    by (simp add: histogram_def match_1e31_def)
  have h2: "histogram near_1e31 10000000000000000000000000000000"
    by (simp add: histogram_def near_1e31_def)
  have le: "float_le (Finite 0) (Finite (2359527035963265/36028797018963968))" by simp
  have s: "chi_square_score_double match_1e31 BENFORD_double 10000000000000000000000000000000
             = Inr (Finite 88)"
    by (simp add: chi_square_score_double_def match_1e31_chi_sq score_of_chi_sq_1e31)
  show ?thesis
    using score_monotone_in_computed_chi_sq [OF h1 h2 match_1e31_chi_sq near_1e31_chi_sq le s]
    by (intro conjI h1 h2 match_1e31_chi_sq near_1e31_chi_sq le s)
qed

subsection \<open>Submit handler: histogram and validation\<close>


lemma is_digit_code: "is_digit c \<Longrightarrow> 48 \<le> (of_char c :: nat) \<and> (of_char c :: nat) \<le> 57"
  by (auto simp: is_digit_def)

lemma is_digit_zero: "is_digit c \<Longrightarrow> c \<noteq> CHR ''0'' \<Longrightarrow> 49 \<le> (of_char c :: nat)"
  by (auto simp: is_digit_def)

lemma digit_runs_ok:
  "list_all is_digit cur \<Longrightarrow> list_all token_ok (digit_runs cur cs)"
  by (induction cs arbitrary: cur) (auto simp: token_ok_def)

lemma findall_digits_ok: "list_all token_ok (findall_digits text)"
  by (simp add: findall_digits_def digit_runs_ok)

text \<open>The runs, put together, are the digits of the text in order.\<close>

lemma concat_digit_runs: "concat (digit_runs cur cs) = cur @ filter is_digit cs"
  by (induction cs arbitrary: cur) simp_all

lemma concat_findall_digits: "concat (findall_digits text) = filter is_digit text"
  by (simp add: findall_digits_def concat_digit_runs)

lemma char_of_iff:
  assumes "n < 256"
  shows "(c = char_of n) = ((of_char c :: nat) = n)"
proof -
  have "(c = char_of n) = ((of_char c :: nat) = of_char (char_of n :: char))"
    by (simp only: of_char_eq_iff)
  also have "\<dots> = ((of_char c :: nat) = n)" using assms by simp
  finally show ?thesis .
qed

lemma char_of_49: "i < 9 \<Longrightarrow> (c = char_of (49 + i)) = ((of_char c :: nat) = 49 + i)"
  by (rule char_of_iff) simp

lemma count_first_digits_tally:
  "list_all token_ok ns \<Longrightarrow> length counts = 9 \<Longrightarrow>
   count_first_digits counts ns = Inr (map (\<lambda>i. counts ! i + tally ns i) [0..<9])"
proof (induction ns arbitrary: counts)
  case Nil
  then show ?case using map_nth [of counts] by (simp add: tally_def)
next
  case (Cons n ns)
  then obtain c cs where n: "n = c # cs" and dc: "is_digit c"
    by (cases n) (auto simp: token_ok_def)
  have ok: "list_all token_ok ns" using Cons.prems by simp
  show ?case
  proof (cases "c = CHR ''0''")
    case True
    have "tally (n # ns) i = tally ns i" if "i < 9" for i
      using that by (simp add: tally_def n True char_of_49)
    then show ?thesis using Cons.IH [OF ok Cons.prems(2)] by (simp add: n True)
  next
    case False
    define k where "k = (of_char c :: nat) - 49"
    have code: "49 \<le> (of_char c :: nat)" "(of_char c :: nat) \<le> 57"
      using is_digit_zero [OF dc False] is_digit_code [OF dc] by simp_all
    have k9: "k < 9" using code by (simp add: k_def)
    have d: "int_of_char c = Inr (int k + 1)"
      using dc code by (simp add: int_of_char_def k_def)
    have hd_iff: "(c = char_of (49 + i)) = (i = k)" if "i < 9" for i
      using code by (auto simp: char_of_49 [OF that] k_def)
    let ?counts' = "counts[k := counts ! k + 1]"
    have step: "count_first_digits counts (n # ns) = count_first_digits ?counts' ns"
      using False d k9 by (simp add: n)
    have "count_first_digits ?counts' ns = Inr (map (\<lambda>i. ?counts' ! i + tally ns i) [0..<9])"
      by (rule Cons.IH [OF ok]) (simp add: Cons.prems(2))
    also have "map (\<lambda>i. ?counts' ! i + tally ns i) [0..<9]
               = map (\<lambda>i. counts ! i + tally (n # ns) i) [0..<9]"
    proof (rule map_cong [OF refl])
      fix i assume "i \<in> set [0..<9]"
      then have i9: "i < 9" by simp
      show "?counts' ! i + tally ns i = counts ! i + tally (n # ns) i"
        using hd_iff [OF i9] i9 k9 Cons.prems(2)
        by (auto simp: tally_def n nth_list_update)
    qed
    finally show ?thesis using step by simp
  qed
qed

lemma first_digit_indicator:
  assumes "is_digit c"
  shows "sum_list (map (\<lambda>i. if c = char_of (49 + i) then 1 else 0) [0..<9])
           = (if c \<noteq> CHR ''0'' then 1 else (0::int))"
proof -
  have "c \<in> set ''0123456789''" using assms by (simp add: is_digit_def)
  then have "c = CHR ''0'' \<or> c = CHR ''1'' \<or> c = CHR ''2'' \<or> c = CHR ''3'' \<or> c = CHR ''4''
      \<or> c = CHR ''5'' \<or> c = CHR ''6'' \<or> c = CHR ''7'' \<or> c = CHR ''8'' \<or> c = CHR ''9''"
    by simp
  then show ?thesis
    by (elim disjE) (simp_all add: upt_9 char_of_iff)
qed

lemma tally_Cons:
  "tally (n # ns) i = (if hd n = char_of (49 + i) then 1 else 0) + tally ns i"
  by (simp add: tally_def)

lemma sum_tally:
  "list_all token_ok ns \<Longrightarrow>
   sum_list (map (tally ns) [0..<9]) = int (length (filter (\<lambda>n. hd n \<noteq> CHR ''0'') ns))"
proof (induction ns)
  case Nil
  then show ?case by (simp add: tally_def upt_9)
next
  case (Cons n ns)
  then have d: "is_digit (hd n)" by (cases n) (auto simp: token_ok_def)
  have "sum_list (map (tally (n # ns)) [0..<9])
        = sum_list (map (\<lambda>i. if hd n = char_of (49 + i) then 1 else 0) [0..<9])
          + sum_list (map (tally ns) [0..<9])"
    by (simp add: tally_Cons [abs_def] sum_list_addf)
  then show ?case using Cons first_digit_indicator [OF d] by simp
qed

lemma count_findall:
  "count_first_digits (replicate 9 0) (findall_digits text)
     = Inr (map (tally (findall_digits text)) [0..<9])"
proof -
  have "count_first_digits (replicate 9 0) (findall_digits text)
     = Inr (map (\<lambda>i. replicate 9 0 ! i + tally (findall_digits text) i) [0..<9])"
    by (rule count_first_digits_tally [OF findall_digits_ok]) simp
  also have "map (\<lambda>i. replicate 9 0 ! i + tally (findall_digits text) i) [0..<9]
     = map (tally (findall_digits text)) [0..<9]"
    by (rule map_cong [OF refl]) simp
  finally show ?thesis .
qed


lemma strip_blank: "list_all py_isspace s \<Longrightarrow> py_strip s = []"
proof -
  assume "list_all py_isspace s"
  then have h: "dropWhile py_isspace s = []" by (simp add: list_all_iff)
  show ?thesis by (simp add: py_strip_def h)
qed

text \<open>
  Claim C7: a submission whose name is empty or all whitespace, or whose text has fewer
  than five digit runs, halts with a validation message and leaves the state as it was:
  the leaderboard gets no entry and the file is not written.
\<close>

theorem invalid_submission_changes_nothing:
  assumes "list_all py_isspace username \<or> length (findall_digits data_input) < 5"
  shows "\<exists>h. submit repr username data_input now st = (Halted h, st)"
  using assms by (auto simp: submit_def Let_def strip_blank)

theorem invalid_submission_changes_nothing_witness:
  "(list_all py_isspace ''Ann'' \<or> length (findall_digits ''12 34'') < 5)
   \<and> (\<exists>h. submit (\<lambda>x. ''0'') ''Ann'' ''12 34'' ''2024-01-01 00:00:00''
              \<lparr>leaderboard = [], csv_file = None\<rparr>
            = (Halted h, \<lparr>leaderboard = [], csv_file = None\<rparr>))
   \<and> (list_all py_isspace ''  '' \<or> length (findall_digits ''1 2 3 4 5 6'') < 5)
   \<and> (\<exists>h. submit (\<lambda>x. ''0'') ''  '' ''1 2 3 4 5 6'' ''2024-01-01 00:00:00''
              \<lparr>leaderboard = [], csv_file = None\<rparr>
            = (Halted h, \<lparr>leaderboard = [], csv_file = None\<rparr>))"
proof -
  have h1: "list_all py_isspace ''Ann'' \<or> length (findall_digits ''12 34'') < 5"
    by (simp add: findall_digits_def is_digit_def)
  have h2: "list_all py_isspace ''  '' \<or> length (findall_digits ''1 2 3 4 5 6'') < 5"
    by (simp add: py_isspace_def)
  show ?thesis
    using h1 h2
      invalid_submission_changes_nothing [OF h1, of "\<lambda>x. ''0''" "''2024-01-01 00:00:00''"
        "\<lparr>leaderboard = [], csv_file = None\<rparr>"]
      invalid_submission_changes_nothing [OF h2, of "\<lambda>x. ''0''" "''2024-01-01 00:00:00''"
        "\<lparr>leaderboard = [], csv_file = None\<rparr>"]
    by blast
qed

text \<open>
  Claim C1 asks that a submission with at least five digit runs, all of them beginning
  with 0, raise no division error. In the code the total is then 0 and
  \<^verbatim>\<open>observed = [c/total for c in counts]\<close> raises \<^verbatim>\<open>ZeroDivisionError\<close> before the score is
  computed; the guard \<^verbatim>\<open>if E > 0\<close> of \<^verbatim>\<open>chi_square_score\<close> is never reached.
\<close>

theorem all_zero_leading_raises:
  "submit repr ''bob'' ''01 02 03 04 05'' now st = (Raised ZeroDivisionError, st)"
proof -
  have a: "findall_digits ''01 02 03 04 05'' = [''01'', ''02'', ''03'', ''04'', ''05'']"
    by (simp add: findall_digits_def is_digit_def)
  have b: "py_strip ''bob'' = ''bob''"
    by (simp add: py_strip_def py_isspace_def)
  show ?thesis
    by (simp add: submit_def a b Let_def observed_of_def sum_list_replicate)
qed

text \<open>The same happens for every submission that passes validation and whose digit runs
  all begin with 0.\<close>

lemma zero_leading_raises_in_general:
  assumes "py_strip username \<noteq> []"
    and "5 \<le> length (findall_digits data_input)"
    and "list_all (\<lambda>n. hd n = CHR ''0'') (findall_digits data_input)"
  shows "submit repr username data_input now st = (Raised ZeroDivisionError, st)"
proof -
  let ?ns = "findall_digits data_input"
  have "filter (\<lambda>n. hd n \<noteq> CHR ''0'') ?ns = []"
    using assms(3) by (simp add: list_all_iff filter_empty_conv)
  then have "sum_list (map (tally ?ns) [0..<9]) = 0"
    using sum_tally [OF findall_digits_ok, of data_input] by simp
  then have "observed_of (map (tally ?ns) [0..<9]) (sum_list (map (tally ?ns) [0..<9]))
             = Inl ZeroDivisionError"
    by (simp add: observed_of_def)
  then show ?thesis
    using assms(1,2) by (simp add: submit_def Let_def count_findall)
qed

lemma findall_nines: "digit_runs [] (concat (replicate n ''9 '')) = replicate n ''9''"
  by (induction n) (simp_all add: is_digit_def)

lemma tally_nines: "i < 9 \<Longrightarrow> tally (replicate n ''9'') i = (if i = 8 then int n else 0)"
  by (auto simp: tally_def char_of_49)

lemma count_nines:
  "count_first_digits (replicate 9 0) (findall_digits (concat (replicate n ''9 '')))
     = Inr [0, 0, 0, 0, 0, 0, 0, 0, int n]"
proof -
  have "map (tally (replicate n ''9'')) [0..<9] = [0, 0, 0, 0, 0, 0, 0, 0, int n]"
    by (simp add: upt_9 tally_nines)
  then show ?thesis
    using count_findall [of "concat (replicate n ''9 '')"]
    by (simp add: findall_digits_def findall_nines)
qed

lemma submit_nines:
  "submit repr ''bob'' (concat (replicate 1000 ''9 '')) now st = (Raised OverflowError, st)"
proof -
  have a: "py_strip ''bob'' = ''bob''"
    by (simp add: py_strip_def py_isspace_def)
  have b: "length (findall_digits (concat (replicate 1000 ''9 ''))) = 1000"
    by (simp add: findall_digits_def findall_nines)
  have c: "observed_of [0, 0, 0, 0, 0, 0, 0, 0, 1000] 1000
           = Inr (map (\<lambda>c. real_of_int c / real_of_int 1000) [0, 0, 0, 0, 0, 0, 0, 0, 1000])"
    by (simp add: observed_of_def)
  show ?thesis
    using count_nines [of 1000]
    by (simp add: submit_def a b c Let_def score_all_nines)
qed

text \<open>
  Claim C3 says that every histogram with a positive total gets a score between 0 and 100.
  The code does not reach a score for a histogram far from Benford's law: for 1000
  numbers that all begin with 9 the exponent handed to \<^verbatim>\<open>math.exp\<close> is about 2071.9, the call
  raises \<^verbatim>\<open>OverflowError\<close>, and the Submit handler ends with that error.
\<close>

theorem score_overflow:
  "histogram [0, 0, 0, 0, 0, 0, 0, 0, 1000] 1000
   \<and> chi_square_score [0, 0, 0, 0, 0, 0, 0, 0, 1000] BENFORD 1000 = Inl OverflowError
   \<and> submit repr ''bob'' (concat (replicate 1000 ''9 '')) now st = (Raised OverflowError, st)"
  using score_all_nines submit_nines [of repr now st] by (simp add: histogram_def)

subsection \<open>Admin controls and the ordering invariant\<close>

lemma index_of_name_first:
  "sel \<in> set (map name board) \<Longrightarrow> \<exists>i. index_of_name sel board = Some i \<and> first_match sel board i"
proof (induction board)
  case Nil
  then show ?case by simp
next
  case (Cons e es)
  show ?case
  proof (cases "name e = sel")
    case True
    then show ?thesis by (simp add: first_match_def)
  next
    case False
    then have "sel \<in> set (map name es)" using Cons.prems by auto
    then obtain i where "index_of_name sel es = Some i" "first_match sel es i"
      using Cons.IH by blast
    then show ?thesis using False by (simp add: first_match_def)
  qed
qed

text \<open>
  Claim C9: when the selected name occurs in the leaderboard (more than once or not), the
  index used by Update Name and by Delete Entry is that of the first entry, in display
  order, with that name; the update changes the name of that entry only and the deletion
  removes that entry only; every other entry, same-named ones included, stays as it is.
\<close>

theorem admin_acts_on_first_match:
  assumes "selected_name \<in> set (map name (leaderboard st))"
  shows "\<exists>i. first_match selected_name (leaderboard st) i
           \<and> update_name repr selected_name new_name st
               = (Done, \<lparr>leaderboard = (leaderboard st)[i := (leaderboard st ! i)\<lparr>name := new_name\<rparr>],
                        csv_file = Some (save_leaderboard repr
                          ((leaderboard st)[i := (leaderboard st ! i)\<lparr>name := new_name\<rparr>]))\<rparr>)
           \<and> delete_entry repr selected_name st
               = (Done, \<lparr>leaderboard = take i (leaderboard st) @ drop (Suc i) (leaderboard st),
                        csv_file = Some (save_leaderboard repr
                          (take i (leaderboard st) @ drop (Suc i) (leaderboard st)))\<rparr>)"
proof -
  obtain i where "index_of_name selected_name (leaderboard st) = Some i"
    and "first_match selected_name (leaderboard st) i"
    using index_of_name_first [OF assms] by blast
  then show ?thesis by (auto simp: update_name_def delete_entry_def Let_def)
qed

theorem admin_acts_on_first_match_witness:
  "''Doe, John'' \<in> set (map name (leaderboard sample_state))
   \<and> (\<exists>i. first_match ''Doe, John'' (leaderboard sample_state) i
        \<and> update_name sample_repr ''Doe, John'' ''Zed'' sample_state
            = (Done, \<lparr>leaderboard = (leaderboard sample_state)
                         [i := (leaderboard sample_state ! i)\<lparr>name := ''Zed''\<rparr>],
                     csv_file = Some (save_leaderboard sample_repr
                       ((leaderboard sample_state)
                         [i := (leaderboard sample_state ! i)\<lparr>name := ''Zed''\<rparr>]))\<rparr>)
        \<and> delete_entry sample_repr ''Doe, John'' sample_state
            = (Done, \<lparr>leaderboard = take i (leaderboard sample_state)
                         @ drop (Suc i) (leaderboard sample_state),
                     csv_file = Some (save_leaderboard sample_repr
                       (take i (leaderboard sample_state)
                         @ drop (Suc i) (leaderboard sample_state)))\<rparr>))
   \<and> leaderboard (snd (update_name sample_repr ''Doe, John'' ''Zed'' sample_state))
       = [john\<lparr>name := ''Zed''\<rparr>, bob, john2]
   \<and> leaderboard (snd (delete_entry sample_repr ''Doe, John'' sample_state)) = [bob, john2]"
proof -
  have h: "''Doe, John'' \<in> set (map name (leaderboard sample_state))"
    by (simp add: sample_state_def john_def)
  have u: "leaderboard (snd (update_name sample_repr ''Doe, John'' ''Zed'' sample_state))
       = [john\<lparr>name := ''Zed''\<rparr>, bob, john2]"
    by (simp add: update_name_def sample_state_def john_def Let_def)
  have d: "leaderboard (snd (delete_entry sample_repr ''Doe, John'' sample_state)) = [bob, john2]"
    by (simp add: delete_entry_def sample_state_def john_def Let_def)
  show ?thesis
    using h u d admin_acts_on_first_match [OF h, of sample_repr "''Zed''"] by simp
qed

lemma score_descending_map: "score_descending board = sorted_wrt (\<ge>) (map score board)"
  by (simp add: score_descending_def sorted_wrt_map)

lemma sorted_by_score_descending: "score_descending (sorted_by_score board)"
proof -
  have "sorted (map (\<lambda>e. - score e) (sort_key (\<lambda>e. - score e) board))"
    by (rule sorted_sort_key)
  then show ?thesis
    by (simp add: sorted_map score_descending_def sorted_by_score_def)
qed

lemma sorted_by_score_stable:
  "filter (\<lambda>e. score e = s) (sorted_by_score board) = filter (\<lambda>e. score e = s) board"
proof -
  have "filter (\<lambda>e. - score e = - s) (sort_key (\<lambda>e. - score e) board)
        = filter (\<lambda>e. - score e = - s) board"
    by (rule sort_key_stable)
  then show ?thesis by (simp add: sorted_by_score_def)
qed

lemma sorted_wrt_remove_nth:
  "sorted_wrt P xs \<Longrightarrow> sorted_wrt P (take i xs @ drop (Suc i) xs)"
proof (induction xs arbitrary: i)
  case Nil
  then show ?case by simp
next
  case (Cons x xs)
  show ?case
  proof (cases i)
    case 0
    then show ?thesis using Cons.prems by simp
  next
    case (Suc j)
    have "sorted_wrt P (take j xs @ drop (Suc j) xs)" using Cons by simp
    moreover have "\<forall>y \<in> set (take j xs @ drop (Suc j) xs). P x y"
      using Cons.prems by (auto dest: in_set_takeD in_set_dropD)
    ultimately show ?thesis using Suc by simp
  qed
qed

lemma rename_keeps_scores: "map score (board[i := (board ! i)\<lparr>name := n\<rparr>]) = map score board"
proof (cases "i < length board")
  case True
  then have "(map score board)[i := score (board ! i)] = (map score board)[i := map score board ! i]"
    by simp
  then show ?thesis by (simp add: map_update del: nth_map)
next
  case False
  then have "length board \<le> i" by simp
  then show ?thesis by (simp add: list_update_beyond)
qed

lemma submit_cases:
  "snd (submit repr username data_input now st) = st
   \<or> (\<exists>sc. snd (submit repr username data_input now st)
            = \<lparr>leaderboard = sorted_by_score
                 (leaderboard st @ [\<lparr>name = username, score = sc, timestamp = now\<rparr>]),
               csv_file = Some (save_leaderboard repr (sorted_by_score
                 (leaderboard st @ [\<lparr>name = username, score = sc, timestamp = now\<rparr>])))\<rparr>)"
  by (auto simp: submit_def Let_def split: sum.splits)

lemma update_cases:
  "snd (update_name repr sel n st) = st
   \<or> (\<exists>i. snd (update_name repr sel n st)
            = \<lparr>leaderboard = (leaderboard st)[i := (leaderboard st ! i)\<lparr>name := n\<rparr>],
               csv_file = Some (save_leaderboard repr
                 ((leaderboard st)[i := (leaderboard st ! i)\<lparr>name := n\<rparr>]))\<rparr>)"
  by (auto simp: update_name_def Let_def split: option.splits)

lemma delete_cases:
  "snd (delete_entry repr sel st) = st
   \<or> (\<exists>i. snd (delete_entry repr sel st)
            = \<lparr>leaderboard = take i (leaderboard st) @ drop (Suc i) (leaderboard st),
               csv_file = Some (save_leaderboard repr
                 (take i (leaderboard st) @ drop (Suc i) (leaderboard st)))\<rparr>)"
  by (auto simp: delete_entry_def Let_def split: option.splits)

lemma perform_sorted:
  assumes "score_descending (leaderboard st)"
  shows "score_descending (leaderboard (snd (perform repr a st)))"
proof (cases a)
  case (Submit u d t)
  then show ?thesis
    using submit_cases [of repr u d t st] assms by (auto simp: sorted_by_score_descending)
next
  case (Update_name sel n)
  then show ?thesis
    using update_cases [of repr sel n st] assms
    by (auto simp: score_descending_map rename_keeps_scores)
next
  case (Delete_entry sel)
  then show ?thesis
    using delete_cases [of repr sel st] assms
    by (auto simp: score_descending_def sorted_wrt_remove_nth)
qed

lemma order_kept_same: "order_kept before before"
  by (simp add: order_kept_def)

lemma order_kept_insert:
  "order_kept before (sorted_by_score (before @ [e]))"
  unfolding order_kept_def
  by (intro disjI2 disjI1 exI [of _ e] allI) (rule sorted_by_score_stable)

lemma order_kept_rename: "order_kept before (before[i := (before ! i)\<lparr>name := n\<rparr>])"
  unfolding order_kept_def by blast

lemma order_kept_remove: "order_kept before (take i before @ drop (Suc i) before)"
  unfolding order_kept_def by blast

lemma perform_order_kept:
  "order_kept (leaderboard st) (leaderboard (snd (perform repr a st)))"
proof (cases a)
  case (Submit u d t)
  from submit_cases [of repr u d t st] show ?thesis
  proof (elim disjE exE)
    assume "snd (submit repr u d t st) = st"
    then show ?thesis using Submit by (simp add: order_kept_same)
  next
    fix sc
    assume "snd (submit repr u d t st)
            = \<lparr>leaderboard = sorted_by_score
                 (leaderboard st @ [\<lparr>name = u, score = sc, timestamp = t\<rparr>]),
               csv_file = Some (save_leaderboard repr (sorted_by_score
                 (leaderboard st @ [\<lparr>name = u, score = sc, timestamp = t\<rparr>])))\<rparr>"
    then show ?thesis using Submit by (simp add: order_kept_insert)
  qed
next
  case (Update_name sel n)
  from update_cases [of repr sel n st] show ?thesis
  proof (elim disjE exE)
    assume "snd (update_name repr sel n st) = st"
    then show ?thesis using Update_name by (simp add: order_kept_same)
  next
    fix i
    assume "snd (update_name repr sel n st)
            = \<lparr>leaderboard = (leaderboard st)[i := (leaderboard st ! i)\<lparr>name := n\<rparr>],
               csv_file = Some (save_leaderboard repr
                 ((leaderboard st)[i := (leaderboard st ! i)\<lparr>name := n\<rparr>]))\<rparr>"
    then show ?thesis using Update_name by (simp add: order_kept_rename)
  qed
next
  case (Delete_entry sel)
  from delete_cases [of repr sel st] show ?thesis
  proof (elim disjE exE)
    assume "snd (delete_entry repr sel st) = st"
    then show ?thesis using Delete_entry by (simp add: order_kept_same)
  next
    fix i
    assume "snd (delete_entry repr sel st)
            = \<lparr>leaderboard = take i (leaderboard st) @ drop (Suc i) (leaderboard st),
               csv_file = Some (save_leaderboard repr
                 (take i (leaderboard st) @ drop (Suc i) (leaderboard st)))\<rparr>"
    then show ?thesis using Delete_entry by (simp add: order_kept_remove)
  qed
qed

lemma run_sorted:
  "score_descending (leaderboard st) \<Longrightarrow> score_descending (leaderboard (run repr acts st))"
  by (induction acts arbitrary: st) (simp_all add: perform_sorted)

lemma run_from_empty_sorted:
  "score_descending (leaderboard (run repr acts \<lparr>leaderboard = [], csv_file = file\<rparr>))"
  by (rule run_sorted) (simp add: score_descending_def)

text \<open>
  Claim C2: from a leaderboard that is sorted by score, descending (the empty one of a
  first session, or one this program persisted), every sequence of submissions, name
  updates and deletions leaves the leaderboard sorted by score, descending; and each single
  action keeps the relative order of the entries with equal scores, a new entry coming
  last among its equals.
\<close>

theorem leaderboard_stays_sorted:
  assumes "score_descending (leaderboard st)"
  shows "score_descending (leaderboard (run repr acts st))
         \<and> order_kept (leaderboard st) (leaderboard (snd (perform repr a st)))"
  using run_sorted [OF assms] perform_order_kept by simp

lemma sample_sorted: "score_descending (leaderboard sample_state)"
  by (simp add: score_descending_def sample_state_def john_def bob_def john2_def)

theorem leaderboard_stays_sorted_witness:
  "score_descending (leaderboard sample_state)
   \<and> score_descending (leaderboard (run sample_repr
        [Submit ''Cy'' ''1 2 3 4 5'' ''2024-01-04 08:00:00'',
         Update_name ''Doe, John'' ''Zed'',
         Delete_entry ''Bob''] sample_state))
   \<and> order_kept (leaderboard sample_state)
        (leaderboard (snd (perform sample_repr
           (Submit ''Cy'' ''1 2 3 4 5'' ''2024-01-04 08:00:00'') sample_state)))"
  using sample_sorted
    leaderboard_stays_sorted [OF sample_sorted, of sample_repr
      "[Submit ''Cy'' ''1 2 3 4 5'' ''2024-01-04 08:00:00'',
        Update_name ''Doe, John'' ''Zed'', Delete_entry ''Bob'']"
      "Submit ''Cy'' ''1 2 3 4 5'' ''2024-01-04 08:00:00''"]
  by simp

subsection \<open>Persisting and loading back\<close>

lemma specials_distinct:
  "CR \<noteq> LF" "LF \<noteq> CR" "CR \<noteq> QUOTE" "QUOTE \<noteq> CR" "LF \<noteq> QUOTE" "QUOTE \<noteq> LF"
  "DELIM \<noteq> CR" "CR \<noteq> DELIM" "DELIM \<noteq> LF" "LF \<noteq> DELIM" "DELIM \<noteq> QUOTE" "QUOTE \<noteq> DELIM"
  by (simp_all add: CR_def LF_def QUOTE_def DELIM_def)

lemma feed_append:
  "feed r (xs @ ys) = (case feed r xs of Inl e \<Rightarrow> Inl e | Inr r' \<Rightarrow> feed r' ys)"
  by (induction xs arbitrary: r) (simp_all split: sum.splits)

lemma feed_seq:
  "feed r xs = Inr r' \<Longrightarrow> feed r' ys = res \<Longrightarrow> feed r (xs @ ys) = res"
  by (simp add: feed_append)

lemma feed_unquoted:
  "\<not> list_ex csv_special cs \<Longrightarrow> length f + length cs \<le> field_limit \<Longrightarrow>
   feed \<lparr>r_state = IN_FIELD, r_fields = fs, r_field = f\<rparr> (map Ch cs)
     = Inr \<lparr>r_state = IN_FIELD, r_fields = fs, r_field = f @ cs\<rparr>"
proof (induction cs arbitrary: f)
  case Nil
  then show ?case by simp
next
  case (Cons c cs)
  have c: "c \<noteq> LF" "c \<noteq> CR" "c \<noteq> DELIM" "c \<noteq> QUOTE"
    using Cons.prems(1) by (auto simp: csv_special_def)
  have len: "length f < field_limit" using Cons.prems(2) by simp
  have step: "parse_process_char \<lparr>r_state = IN_FIELD, r_fields = fs, r_field = f\<rparr> (Ch c)
              = Inr \<lparr>r_state = IN_FIELD, r_fields = fs, r_field = f @ [c]\<rparr>"
    using c len by (simp add: parse_process_char_def parse_add_char_def)
  have "feed \<lparr>r_state = IN_FIELD, r_fields = fs, r_field = f @ [c]\<rparr> (map Ch cs)
        = Inr \<lparr>r_state = IN_FIELD, r_fields = fs, r_field = (f @ [c]) @ cs\<rparr>"
    by (rule Cons.IH) (use Cons.prems in simp_all)
  then show ?case using step by simp
qed

lemma feed_quoted:
  "length f + length cs \<le> field_limit \<Longrightarrow>
   feed \<lparr>r_state = IN_QUOTED_FIELD, r_fields = fs, r_field = f\<rparr> (map Ch (csv_escape cs))
     = Inr \<lparr>r_state = IN_QUOTED_FIELD, r_fields = fs, r_field = f @ cs\<rparr>"
proof (induction cs arbitrary: f)
  case Nil
  then show ?case by (simp add: csv_escape_def)
next
  case (Cons c cs)
  have len: "length f < field_limit" using Cons.prems by simp
  have IH: "feed \<lparr>r_state = IN_QUOTED_FIELD, r_fields = fs, r_field = f @ [c]\<rparr>
              (map Ch (csv_escape cs))
        = Inr \<lparr>r_state = IN_QUOTED_FIELD, r_fields = fs, r_field = (f @ [c]) @ cs\<rparr>"
    by (rule Cons.IH) (use Cons.prems in simp)
  show ?case
  proof (cases "c = QUOTE")
    case True
    have "feed \<lparr>r_state = IN_QUOTED_FIELD, r_fields = fs, r_field = f\<rparr> [Ch QUOTE, Ch QUOTE]
          = Inr \<lparr>r_state = IN_QUOTED_FIELD, r_fields = fs, r_field = f @ [QUOTE]\<rparr>"
      using len by (simp add: parse_process_char_def parse_add_char_def)
    moreover have "map Ch (csv_escape (c # cs)) = [Ch QUOTE, Ch QUOTE] @ map Ch (csv_escape cs)"
      using True by (simp add: csv_escape_def)
    ultimately show ?thesis using IH True by (simp only: feed_append) simp
  next
    case False
    have "feed \<lparr>r_state = IN_QUOTED_FIELD, r_fields = fs, r_field = f\<rparr> [Ch c]
          = Inr \<lparr>r_state = IN_QUOTED_FIELD, r_fields = fs, r_field = f @ [c]\<rparr>"
      using len False by (simp add: parse_process_char_def parse_add_char_def)
    moreover have "map Ch (csv_escape (c # cs)) = [Ch c] @ map Ch (csv_escape cs)"
      using False by (simp add: csv_escape_def)
    ultimately show ?thesis using IH by (simp only: feed_append) simp
  qed
qed

lemma feed_field:
  assumes len: "length f \<le> field_limit"
    and st: "st = START_FIELD \<or> (st = START_RECORD \<and> t = DELIM)"
    and t: "t = DELIM \<or> t = CR"
  shows "feed \<lparr>r_state = st, r_fields = fs, r_field = []\<rparr> (map Ch (csv_field f) @ [Ch t])
         = Inr \<lparr>r_state = (if t = DELIM then START_FIELD else EAT_CRNL),
                 r_fields = fs @ [f], r_field = []\<rparr>"
proof (cases "list_ex csv_special f")
  case True
  have ev: "map Ch (csv_field f) @ [Ch t]
            = [Ch QUOTE] @ map Ch (csv_escape f) @ [Ch QUOTE, Ch t]"
    using True by (simp add: csv_field_def)
  have open_q: "feed \<lparr>r_state = st, r_fields = fs, r_field = []\<rparr> [Ch QUOTE]
        = Inr \<lparr>r_state = IN_QUOTED_FIELD, r_fields = fs, r_field = []\<rparr>"
    using st by (auto simp: parse_process_char_def process_start_field_def is_newline_def
        specials_distinct)
  have body: "feed \<lparr>r_state = IN_QUOTED_FIELD, r_fields = fs, r_field = []\<rparr>
          (map Ch (csv_escape f))
        = Inr \<lparr>r_state = IN_QUOTED_FIELD, r_fields = fs, r_field = [] @ f\<rparr>"
    by (rule feed_quoted) (use len in simp)
  have close_q: "feed \<lparr>r_state = IN_QUOTED_FIELD, r_fields = fs, r_field = f\<rparr> [Ch QUOTE, Ch t]
        = Inr \<lparr>r_state = (if t = DELIM then START_FIELD else EAT_CRNL),
                r_fields = fs @ [f], r_field = []\<rparr>"
    using t by (auto simp: parse_process_char_def parse_save_field_def specials_distinct)
  show ?thesis
    unfolding ev by (simp only: feed_append open_q body close_q sum.case append_Nil)
next
  case False
  then have ev: "csv_field f = f" by (simp add: csv_field_def)
  show ?thesis
  proof (cases f)
    case Nil
    then show ?thesis using st t
      by (auto simp: csv_field_def parse_process_char_def process_start_field_def
          parse_save_field_def is_newline_def specials_distinct)
  next
    case (Cons c cs)
    have c: "c \<noteq> LF" "c \<noteq> CR" "c \<noteq> DELIM" "c \<noteq> QUOTE"
      using False Cons by (auto simp: csv_special_def)
    have first: "feed \<lparr>r_state = st, r_fields = fs, r_field = []\<rparr> [Ch c]
        = Inr \<lparr>r_state = IN_FIELD, r_fields = fs, r_field = [c]\<rparr>"
      using st c by (auto simp: parse_process_char_def process_start_field_def is_newline_def
          parse_add_char_def field_limit_def)
    have rest: "feed \<lparr>r_state = IN_FIELD, r_fields = fs, r_field = [c]\<rparr> (map Ch cs)
        = Inr \<lparr>r_state = IN_FIELD, r_fields = fs, r_field = [c] @ cs\<rparr>"
      by (rule feed_unquoted) (use False Cons len in simp_all)
    have last: "feed \<lparr>r_state = IN_FIELD, r_fields = fs, r_field = c # cs\<rparr> [Ch t]
        = Inr \<lparr>r_state = (if t = DELIM then START_FIELD else EAT_CRNL),
                r_fields = fs @ [c # cs], r_field = []\<rparr>"
      using t by (auto simp: parse_process_char_def parse_save_field_def specials_distinct)
    have rest': "feed \<lparr>r_state = IN_FIELD, r_fields = fs, r_field = [c]\<rparr> (map Ch cs)
        = Inr \<lparr>r_state = IN_FIELD, r_fields = fs, r_field = c # cs\<rparr>"
      using rest by simp
    have ev': "csv_field (c # cs) = c # cs" using ev Cons by simp
    have full: "feed \<lparr>r_state = st, r_fields = fs, r_field = []\<rparr>
          ([Ch c] @ map Ch cs @ [Ch t])
        = Inr \<lparr>r_state = (if t = DELIM then START_FIELD else EAT_CRNL),
                r_fields = fs @ [c # cs], r_field = []\<rparr>"
      by (rule feed_seq [OF first feed_seq [OF rest' last]])
    show ?thesis unfolding Cons ev' using full by simp
  qed
qed

text \<open>Reading what the writer wrote, line breaks inside quoted fields included. The
  reader is fed whole lines; \<open>absorb\<close> lets the proofs follow it character by
  character.\<close>

lemma feed_line_split:
  "feed_line r (cur @ l) = (case feed r (map Ch cur) of Inl e \<Rightarrow> Inl e | Inr s \<Rightarrow> feed_line s l)"
  by (simp add: feed_line_def feed_append split: sum.splits)

lemma csv_rows_line_split:
  "csv_rows r ((cur @ l) # ls)
     = (case feed r (map Ch cur) of Inl e \<Rightarrow> [Inl e] | Inr s \<Rightarrow> csv_rows s (l # ls))"
  by (simp add: feed_line_split split: sum.splits)

lemma absorb_line:
  assumes "file_lines cur rest = (cur @ x) # ls" "file_lines [] rest = x # ls"
  shows "csv_rows r (file_lines cur rest)
     = (case feed r (map Ch cur) of Inl e \<Rightarrow> [Inl e] | Inr s \<Rightarrow> csv_rows s (file_lines [] rest))"
  by (simp only: assms csv_rows_line_split)

lemma absorb:
  "rest \<noteq> [] \<Longrightarrow>
   csv_rows r (file_lines cur rest)
     = (case feed r (map Ch cur) of Inl e \<Rightarrow> [Inl e] | Inr s \<Rightarrow> csv_rows s (file_lines [] rest))"
proof (induction rest arbitrary: r cur rule: induct_list012)
  case 1
  then show ?case by simp
next
  case (2 c)
  show ?case by (rule absorb_line [where x = "[c]" and ls = "[]"]) simp_all
next
  case (3 c d ds)
  consider (lf) "c = LF" | (crlf) "c = CR" "d = LF" | (cr) "c = CR" "d \<noteq> LF"
    | (plain) "c \<noteq> LF" "c \<noteq> CR"
    by blast
  then show ?case
  proof cases
    case lf
    show ?thesis
      by (rule absorb_line [where x = "[c]" and ls = "file_lines [] (d # ds)"])
         (simp_all add: lf)
  next
    case crlf
    show ?thesis
      by (rule absorb_line [where x = "[c, d]" and ls = "file_lines [] ds"])
         (simp_all add: crlf specials_distinct)
  next
    case cr
    show ?thesis
      by (rule absorb_line [where x = "[c]" and ls = "file_lines [] (d # ds)"])
         (simp_all add: cr specials_distinct)
  next
    case plain
    have l: "file_lines cur (c # d # ds) = file_lines (cur @ [c]) (d # ds)"
      and l0: "file_lines [] (c # d # ds) = file_lines [c] (d # ds)"
      using plain by simp_all
    have a: "csv_rows r (file_lines (cur @ [c]) (d # ds))
          = (case feed r (map Ch (cur @ [c])) of Inl e \<Rightarrow> [Inl e]
             | Inr s \<Rightarrow> csv_rows s (file_lines [] (d # ds)))"
      by (rule "3.IH"(2)) simp
    have b: "csv_rows s (file_lines [c] (d # ds))
          = (case feed s (map Ch [c]) of Inl e \<Rightarrow> [Inl e]
             | Inr s' \<Rightarrow> csv_rows s' (file_lines [] (d # ds)))" for s
      by (rule "3.IH"(2)) simp
    show ?thesis
    proof (cases "feed r (map Ch cur)")
      case (Inl e)
      then have "feed r (map Ch (cur @ [c])) = Inl e" by (simp add: feed_append)
      then show ?thesis unfolding l l0 a using Inl by simp
    next
      case (Inr s)
      then have "feed r (map Ch (cur @ [c])) = feed s (map Ch [c])" by (simp add: feed_append)
      then show ?thesis unfolding l l0 a using Inr b [of s] by simp
    qed
  qed
qed

lemma step_char:
  assumes "c \<noteq> CR" "c \<noteq> LF" "rest \<noteq> []" "parse_process_char s (Ch c) = Inr s'"
  shows "at_state s (c # rest) = at_state s' rest"
proof -
  obtain d ds where rest: "rest = d # ds" using assms(3) by (cases rest) auto
  have "file_lines [] (c # rest) = file_lines [c] rest"
    using assms(1,2) by (simp add: rest)
  then show ?thesis
    using absorb [OF assms(3), of s "[c]"] assms(4) by (simp add: at_state_def)
qed

lemma step_chars:
  assumes "CR \<notin> set cs" "LF \<notin> set cs" "rest \<noteq> []" "feed s (map Ch cs) = Inr s'"
  shows "at_state s (cs @ rest) = at_state s' rest"
  using assms
proof (induction cs arbitrary: s)
  case Nil
  then show ?case by simp
next
  case (Cons c cs)
  obtain s1 where s1: "parse_process_char s (Ch c) = Inr s1" and rest: "feed s1 (map Ch cs) = Inr s'"
    using Cons.prems(4) by (auto split: sum.splits)
  have "at_state s (c # (cs @ rest)) = at_state s1 (cs @ rest)"
    by (rule step_char) (use Cons.prems s1 in auto)
  also have "\<dots> = at_state s' rest"
    by (rule Cons.IH) (use Cons.prems rest in auto)
  finally show ?case by simp
qed

lemma file_lines_LF: "file_lines [] (LF # rest) = [LF] # file_lines [] rest"
  by (cases rest) simp_all

lemma file_lines_CRLF: "file_lines [] (CR # LF # rest) = [CR, LF] # file_lines [] rest"
  by (simp add: specials_distinct)

lemma file_lines_CR:
  "rest \<noteq> [] \<Longrightarrow> hd rest \<noteq> LF \<Longrightarrow> file_lines [] (CR # rest) = [CR] # file_lines [] rest"
  by (cases rest) (simp_all add: specials_distinct)

lemma step_LF:
  assumes "feed s [Ch LF, EOL] = Inr s'" "r_state s' \<noteq> START_RECORD"
  shows "at_state s (LF # rest) = at_state s' rest"
proof -
  have "feed_line s [LF] = Inr s'" using assms(1) by (simp add: feed_line_def)
  then show ?thesis unfolding at_state_def file_lines_LF using assms(2) by simp
qed

lemma step_CR:
  assumes "rest \<noteq> []" "hd rest \<noteq> LF" "feed s [Ch CR, EOL] = Inr s'"
    "r_state s' \<noteq> START_RECORD"
  shows "at_state s (CR # rest) = at_state s' rest"
proof -
  have "feed_line s [CR] = Inr s'" using assms(3) by (simp add: feed_line_def)
  then show ?thesis
    unfolding at_state_def file_lines_CR [OF assms(1,2)] using assms(4) by simp
qed

lemma step_CRLF:
  assumes "feed s [Ch CR, Ch LF, EOL] = Inr s'"
  shows "at_state s (CR # LF # rest)
         = (if r_state s' = START_RECORD then Inr (r_fields s') # at_state parse_reset rest
            else at_state s' rest)"
proof -
  have "feed_line s [CR, LF] = Inr s'" using assms by (simp add: feed_line_def)
  then show ?thesis unfolding at_state_def file_lines_CRLF by simp
qed

lemma hd_csv_escape: "b \<noteq> [] \<Longrightarrow> hd b \<noteq> LF \<Longrightarrow> hd (csv_escape b @ T) \<noteq> LF"
  by (cases b) (auto simp: csv_escape_def specials_distinct)

lemma quoted_body:
  "length f + length b \<le> field_limit \<Longrightarrow>
   at_state \<lparr>r_state = IN_QUOTED_FIELD, r_fields = fs, r_field = f\<rparr> (csv_escape b @ QUOTE # T)
     = at_state \<lparr>r_state = IN_QUOTED_FIELD, r_fields = fs, r_field = f @ b\<rparr> (QUOTE # T)"
proof (induction b arbitrary: f rule: length_induct)
  case (1 b)
  note IH = "1.IH" [rule_format]
  show ?case
  proof (cases b)
    case Nil
    then show ?thesis by (simp add: csv_escape_def)
  next
    case (Cons c b')
    have len: "length f < field_limit" using "1.prems" Cons by simp
    have esc: "csv_escape (c # b') = (if c = QUOTE then [QUOTE, QUOTE] else [c]) @ csv_escape b'"
      by (simp add: csv_escape_def)
    have next_step: "at_state \<lparr>r_state = IN_QUOTED_FIELD, r_fields = fs, r_field = f @ [c]\<rparr>
              (csv_escape b' @ QUOTE # T)
          = at_state \<lparr>r_state = IN_QUOTED_FIELD, r_fields = fs, r_field = (f @ [c]) @ b'\<rparr>
              (QUOTE # T)"
      by (rule IH) (use "1.prems" Cons in simp_all)
    consider (quote) "c = QUOTE" | (lf) "c = LF" | (crlf) "c = CR" "b' \<noteq> []" "hd b' = LF"
      | (cr) "c = CR" "b' = [] \<or> hd b' \<noteq> LF" | (plain) "c \<noteq> QUOTE" "c \<noteq> LF" "c \<noteq> CR"
      by blast
    then show ?thesis
    proof cases
      case quote
      have "at_state \<lparr>r_state = IN_QUOTED_FIELD, r_fields = fs, r_field = f\<rparr>
              ([QUOTE, QUOTE] @ (csv_escape b' @ QUOTE # T))
            = at_state \<lparr>r_state = IN_QUOTED_FIELD, r_fields = fs, r_field = f @ [QUOTE]\<rparr>
              (csv_escape b' @ QUOTE # T)"
        by (rule step_chars)
           (use len in \<open>simp_all add: specials_distinct parse_process_char_def parse_add_char_def\<close>)
      moreover have "csv_escape b = [QUOTE, QUOTE] @ csv_escape b'"
        by (simp add: Cons quote csv_escape_def)
      moreover have "f @ b = (f @ [QUOTE]) @ b'" by (simp add: Cons quote)
      ultimately show ?thesis using next_step unfolding quote by simp
    next
      case lf
      have "at_state \<lparr>r_state = IN_QUOTED_FIELD, r_fields = fs, r_field = f\<rparr>
              (LF # (csv_escape b' @ QUOTE # T))
            = at_state \<lparr>r_state = IN_QUOTED_FIELD, r_fields = fs, r_field = f @ [LF]\<rparr>
              (csv_escape b' @ QUOTE # T)"
        by (rule step_LF)
           (use len in \<open>simp_all add: specials_distinct parse_process_char_def parse_add_char_def\<close>)
      moreover have "csv_escape b = [LF] @ csv_escape b'"
        by (simp add: Cons lf csv_escape_def specials_distinct)
      moreover have "f @ b = (f @ [LF]) @ b'" by (simp add: Cons lf)
      ultimately show ?thesis using next_step unfolding lf by simp
    next
      case crlf
      then obtain b'' where b': "b' = LF # b''" by (cases b') auto
      have len2: "length f + 1 < field_limit" using "1.prems" Cons b' by simp
      have a: "at_state \<lparr>r_state = IN_QUOTED_FIELD, r_fields = fs, r_field = f\<rparr>
              (CR # LF # (csv_escape b'' @ QUOTE # T))
            = at_state \<lparr>r_state = IN_QUOTED_FIELD, r_fields = fs, r_field = f @ [CR, LF]\<rparr>
              (csv_escape b'' @ QUOTE # T)"
        using len2 len
        by (subst step_CRLF [where s' = "\<lparr>r_state = IN_QUOTED_FIELD, r_fields = fs,
              r_field = f @ [CR, LF]\<rparr>"])
           (simp_all add: specials_distinct parse_process_char_def parse_add_char_def)
      have b: "at_state \<lparr>r_state = IN_QUOTED_FIELD, r_fields = fs, r_field = f @ [CR, LF]\<rparr>
              (csv_escape b'' @ QUOTE # T)
          = at_state \<lparr>r_state = IN_QUOTED_FIELD, r_fields = fs, r_field = (f @ [CR, LF]) @ b''\<rparr>
              (QUOTE # T)"
        by (rule IH) (use "1.prems" Cons b' in simp_all)
      have "csv_escape b = CR # LF # csv_escape b''"
        by (simp add: Cons b' crlf(1) csv_escape_def specials_distinct)
      moreover have "f @ b = (f @ [CR, LF]) @ b''" by (simp add: Cons b' crlf(1))
      ultimately show ?thesis using a b by simp
    next
      case cr
      have nl: "hd (csv_escape b' @ QUOTE # T) \<noteq> LF"
      proof (cases b')
        case Nil
        then show ?thesis by (simp add: csv_escape_def specials_distinct)
      next
        case (Cons d ds)
        then show ?thesis using cr(2) by (intro hd_csv_escape) auto
      qed
      have "at_state \<lparr>r_state = IN_QUOTED_FIELD, r_fields = fs, r_field = f\<rparr>
              (CR # (csv_escape b' @ QUOTE # T))
            = at_state \<lparr>r_state = IN_QUOTED_FIELD, r_fields = fs, r_field = f @ [CR]\<rparr>
              (csv_escape b' @ QUOTE # T)"
        by (rule step_CR [OF _ nl])
           (use len in \<open>simp_all add: specials_distinct parse_process_char_def parse_add_char_def\<close>)
      moreover have "csv_escape b = [CR] @ csv_escape b'"
        by (simp add: Cons cr(1) csv_escape_def specials_distinct)
      moreover have "f @ b = (f @ [CR]) @ b'" by (simp add: Cons cr(1))
      ultimately show ?thesis using next_step unfolding cr(1) by simp
    next
      case plain
      have "at_state \<lparr>r_state = IN_QUOTED_FIELD, r_fields = fs, r_field = f\<rparr>
              (c # (csv_escape b' @ QUOTE # T))
            = at_state \<lparr>r_state = IN_QUOTED_FIELD, r_fields = fs, r_field = f @ [c]\<rparr>
              (csv_escape b' @ QUOTE # T)"
        by (rule step_char)
           (use len plain in \<open>simp_all add: parse_process_char_def parse_add_char_def\<close>)
      moreover have "csv_escape b = [c] @ csv_escape b'"
        by (simp add: Cons plain csv_escape_def)
      moreover have "f @ b = (f @ [c]) @ b'" by (simp add: Cons)
      ultimately show ?thesis using next_step by simp
    qed
  qed
qed

lemma field_text_quoted:
  assumes "list_ex csv_special f" "length f \<le> field_limit"
    and "st = START_FIELD \<or> st = START_RECORD" "T \<noteq> []"
  shows "at_state \<lparr>r_state = st, r_fields = fs, r_field = []\<rparr> (csv_field f @ T)
         = at_state \<lparr>r_state = QUOTE_IN_QUOTED_FIELD, r_fields = fs, r_field = f\<rparr> T"
proof -
  have "at_state \<lparr>r_state = st, r_fields = fs, r_field = []\<rparr>
          (QUOTE # (csv_escape f @ QUOTE # T))
        = at_state \<lparr>r_state = IN_QUOTED_FIELD, r_fields = fs, r_field = []\<rparr>
          (csv_escape f @ QUOTE # T)"
    by (rule step_char)
       (use assms(3) in \<open>auto simp: specials_distinct parse_process_char_def
          process_start_field_def is_newline_def\<close>)
  also have "\<dots> = at_state \<lparr>r_state = IN_QUOTED_FIELD, r_fields = fs, r_field = [] @ f\<rparr>
          (QUOTE # T)"
    by (rule quoted_body) (use assms(2) in simp)
  also have "\<dots> = at_state \<lparr>r_state = QUOTE_IN_QUOTED_FIELD, r_fields = fs, r_field = f\<rparr> T"
    by (rule step_char)
       (use assms(4) in \<open>simp_all add: specials_distinct parse_process_char_def\<close>)
  finally show ?thesis using assms(1) by (simp add: csv_field_def)
qed

lemma field_then_delim:
  assumes "length f \<le> field_limit" "st = START_FIELD \<or> st = START_RECORD" "T \<noteq> []"
  shows "at_state \<lparr>r_state = st, r_fields = fs, r_field = []\<rparr> (csv_field f @ DELIM # T)
         = at_state \<lparr>r_state = START_FIELD, r_fields = fs @ [f], r_field = []\<rparr> T"
proof (cases "list_ex csv_special f")
  case True
  have "at_state \<lparr>r_state = st, r_fields = fs, r_field = []\<rparr> (csv_field f @ DELIM # T)
        = at_state \<lparr>r_state = QUOTE_IN_QUOTED_FIELD, r_fields = fs, r_field = f\<rparr> (DELIM # T)"
    by (rule field_text_quoted [OF True assms(1,2)]) simp
  also have "\<dots> = at_state \<lparr>r_state = START_FIELD, r_fields = fs @ [f], r_field = []\<rparr> T"
    by (rule step_char)
       (use assms(3) in \<open>simp_all add: specials_distinct parse_process_char_def
          parse_save_field_def\<close>)
  finally show ?thesis .
next
  case False
  then have plain: "CR \<notin> set f" "LF \<notin> set f" and same: "csv_field f = f"
    by (auto simp: csv_field_def list_ex_iff csv_special_def)
  have st: "st = START_FIELD \<or> st = START_RECORD \<and> DELIM = DELIM" using assms(2) by simp
  have "feed \<lparr>r_state = st, r_fields = fs, r_field = []\<rparr> (map Ch (f @ [DELIM]))
        = Inr \<lparr>r_state = START_FIELD, r_fields = fs @ [f], r_field = []\<rparr>"
    using feed_field [OF assms(1) st, of fs] by (simp add: same)
  then have "at_state \<lparr>r_state = st, r_fields = fs, r_field = []\<rparr> ((f @ [DELIM]) @ T)
        = at_state \<lparr>r_state = START_FIELD, r_fields = fs @ [f], r_field = []\<rparr> T"
    by (intro step_chars) (use plain assms(3) in \<open>simp_all add: specials_distinct\<close>)
  then show ?thesis by (simp add: same)
qed

lemma last_field:
  assumes "length f \<le> field_limit"
  shows "at_state \<lparr>r_state = START_FIELD, r_fields = fs, r_field = []\<rparr> (csv_field f @ CR # LF # T)
         = Inr (fs @ [f]) # at_state parse_reset T"
proof (cases "list_ex csv_special f")
  case True
  have "at_state \<lparr>r_state = START_FIELD, r_fields = fs, r_field = []\<rparr>
          (csv_field f @ CR # LF # T)
        = at_state \<lparr>r_state = QUOTE_IN_QUOTED_FIELD, r_fields = fs, r_field = f\<rparr> (CR # LF # T)"
    by (rule field_text_quoted [OF True assms]) simp_all
  also have "\<dots> = Inr (fs @ [f]) # at_state parse_reset T"
    by (subst step_CRLF [where s' = "\<lparr>r_state = START_RECORD, r_fields = fs @ [f], r_field = []\<rparr>"])
       (simp_all add: specials_distinct parse_process_char_def parse_save_field_def is_newline_def)
  finally show ?thesis .
next
  case False
  then have plain: "CR \<notin> set f" "LF \<notin> set f" and same: "csv_field f = f"
    by (auto simp: csv_field_def list_ex_iff csv_special_def)
  show ?thesis
  proof (cases f)
    case Nil
    have e: "csv_field [] = []" using same Nil by simp
    show ?thesis unfolding Nil e append_Nil
      by (subst step_CRLF [where s' = "\<lparr>r_state = START_RECORD, r_fields = fs @ [[]], r_field = []\<rparr>"])
         (simp_all add: specials_distinct parse_process_char_def process_start_field_def
            parse_save_field_def is_newline_def)
  next
    case (Cons c cs)
    have c: "c \<noteq> LF" "c \<noteq> CR" "c \<noteq> DELIM" "c \<noteq> QUOTE"
      using False Cons by (auto simp: csv_special_def)
    have first: "feed \<lparr>r_state = START_FIELD, r_fields = fs, r_field = []\<rparr> [Ch c]
        = Inr \<lparr>r_state = IN_FIELD, r_fields = fs, r_field = [c]\<rparr>"
      using c by (simp add: parse_process_char_def process_start_field_def
          parse_add_char_def field_limit_def)
    have rest: "feed \<lparr>r_state = IN_FIELD, r_fields = fs, r_field = [c]\<rparr> (map Ch cs)
        = Inr \<lparr>r_state = IN_FIELD, r_fields = fs, r_field = [c] @ cs\<rparr>"
      by (rule feed_unquoted) (use False Cons assms in simp_all)
    have "feed \<lparr>r_state = START_FIELD, r_fields = fs, r_field = []\<rparr> ([Ch c] @ map Ch cs)
        = Inr \<lparr>r_state = IN_FIELD, r_fields = fs, r_field = [c] @ cs\<rparr>"
      by (rule feed_seq [OF first rest])
    then have "feed \<lparr>r_state = START_FIELD, r_fields = fs, r_field = []\<rparr> (map Ch f)
        = Inr \<lparr>r_state = IN_FIELD, r_fields = fs, r_field = f\<rparr>"
      by (simp add: Cons)
    then have "at_state \<lparr>r_state = START_FIELD, r_fields = fs, r_field = []\<rparr> (f @ CR # LF # T)
        = at_state \<lparr>r_state = IN_FIELD, r_fields = fs, r_field = f\<rparr> (CR # LF # T)"
      by (intro step_chars) (use plain in simp_all)
    also have "\<dots> = Inr (fs @ [f]) # at_state parse_reset T"
      by (subst step_CRLF [where s' = "\<lparr>r_state = START_RECORD, r_fields = fs @ [f], r_field = []\<rparr>"])
         (simp_all add: specials_distinct parse_process_char_def parse_save_field_def is_newline_def)
    finally show ?thesis by (simp add: same)
  qed
qed

lemma fields_then_end:
  assumes "row \<noteq> []" "list_all (\<lambda>f. length f \<le> field_limit) row"
  shows "at_state \<lparr>r_state = START_FIELD, r_fields = fs, r_field = []\<rparr>
           (join_fields (map csv_field row) @ CR # LF # T)
         = Inr (fs @ row) # at_state parse_reset T"
  using assms
proof (induction row arbitrary: fs rule: join_fields.induct)
  case 1
  then show ?case by simp
next
  case (2 f)
  then show ?case using last_field [of f fs T] by simp
next
  case (3 f g gs)
  have "at_state \<lparr>r_state = START_FIELD, r_fields = fs, r_field = []\<rparr>
          (csv_field f @ DELIM # (join_fields (map csv_field (g # gs)) @ CR # LF # T))
        = at_state \<lparr>r_state = START_FIELD, r_fields = fs @ [f], r_field = []\<rparr>
          (join_fields (map csv_field (g # gs)) @ CR # LF # T)"
    by (rule field_then_delim) (use "3.prems" in simp_all)
  also have "\<dots> = Inr ((fs @ [f]) @ g # gs) # at_state parse_reset T"
    by (rule "3.IH") (use "3.prems" in simp_all)
  finally show ?case by simp
qed

lemma row_then_rest:
  assumes "list_all (\<lambda>f. length f \<le> field_limit) (f # g # gs)"
  shows "at_state parse_reset (writerow (f # g # gs) @ T) = Inr (f # g # gs) # at_state parse_reset T"
proof -
  have "at_state \<lparr>r_state = START_RECORD, r_fields = [], r_field = []\<rparr>
          (csv_field f @ DELIM # (join_fields (map csv_field (g # gs)) @ CR # LF # T))
        = at_state \<lparr>r_state = START_FIELD, r_fields = [] @ [f], r_field = []\<rparr>
          (join_fields (map csv_field (g # gs)) @ CR # LF # T)"
    by (rule field_then_delim) (use assms in simp_all)
  also have "\<dots> = Inr (([] @ [f]) @ g # gs) # at_state parse_reset T"
    by (rule fields_then_end) (use assms in simp_all)
  finally show ?thesis by (simp add: writerow_def parse_reset_def)
qed

lemma csv_reader_written:
  assumes "list_all (\<lambda>r. list_all (\<lambda>f. length f \<le> field_limit) r \<and> 2 \<le> length r) rows"
  shows "csv_reader (concat (map writerow rows)) = map Inr rows"
proof -
  have "at_state parse_reset (concat (map writerow rows)) = map Inr rows"
    using assms
  proof (induction rows)
    case Nil
    then show ?case by (simp add: at_state_def parse_reset_def)
  next
    case (Cons r rows)
    then obtain f g gs where r: "r = f # g # gs"
      by (cases r; cases "tl r") auto
    have "at_state parse_reset (writerow (f # g # gs) @ concat (map writerow rows))
          = Inr (f # g # gs) # at_state parse_reset (concat (map writerow rows))"
      by (rule row_then_rest) (use Cons.prems r in simp)
    then show ?case using Cons by (simp add: r)
  qed
  then show ?thesis by (simp add: csv_reader_def at_state_def)
qed

lemma load_rows_stored:
  "list_all (storable repr flt) board \<Longrightarrow>
   load_rows flt (map (\<lambda>e. Inr [name e, repr (score e), timestamp e]) board) data
     = Inr (data @ board)"
  by (induction board arbitrary: data) (simp_all add: storable_def)

lemma csv_reader_saved:
  assumes "list_all (storable repr flt) board"
  shows "csv_reader (save_leaderboard repr board)
         = map (\<lambda>e. Inr [name e, repr (score e), timestamp e]) board"
proof -
  let ?rows = "map (\<lambda>e. [name e, repr (score e), timestamp e]) board"
  have rows: "list_all (\<lambda>r. list_all (\<lambda>f. length f \<le> field_limit) r \<and> 2 \<le> length r) ?rows"
    using assms by (simp add: list_all_iff storable_def)
  have "save_leaderboard repr board = concat (map writerow ?rows)"
    by (simp add: save_leaderboard_def comp_def)
  then show ?thesis using csv_reader_written [OF rows] by (simp add: comp_def)
qed

text \<open>
  Claim C4 says that a name containing the comma corrupts the persisted store. The code
  writes and reads the store with the csv module, whose writer puts such a name between
  quotes and whose reader takes the quotes off again: the entry is recovered.
\<close>

theorem comma_name_loads_back:
  "DELIM \<in> set (name john)
   \<and> save_leaderboard sample_repr [john]
       = [QUOTE] @ ''Doe, John'' @ [QUOTE] @ '',88.1,2024-01-01 10:00:00'' @ [CR, LF]
   \<and> load_leaderboard sample_float (Some (save_leaderboard sample_repr [john])) = Inr [john]"
proof -
  have st: "list_all (storable sample_repr sample_float) [john]"
    by (simp add: storable_def john_def sample_repr_def sample_float_def field_limit_def)
  have "load_leaderboard sample_float (Some (save_leaderboard sample_repr [john])) = Inr [john]"
    using csv_reader_saved [OF st] load_rows_stored [OF st, of "[]"]
    by (simp add: load_leaderboard_def)
  moreover have "save_leaderboard sample_repr [john]
       = [QUOTE] @ ''Doe, John'' @ [QUOTE] @ '',88.1,2024-01-01 10:00:00'' @ [CR, LF]"
    by (simp add: save_leaderboard_def writerow_def csv_field_def csv_escape_def csv_special_def
        john_def sample_repr_def CR_def LF_def QUOTE_def DELIM_def)
  moreover have "DELIM \<in> set (name john)"
    by (simp add: john_def DELIM_def)
  ultimately show ?thesis by simp
qed

text \<open>
  Claim C4 as amended: for every leaderboard whose names, score texts and timestamps stay
  within the reader's field size limit and whose scores are read back from their text,
  loading what was persisted gives the leaderboard back, entry for entry; names
  containing commas, quotes or line breaks are among them.
\<close>

theorem stored_leaderboard_loads_back:
  assumes "list_all (storable repr flt) board"
  shows "load_leaderboard flt (Some (save_leaderboard repr board)) = Inr board"
  using csv_reader_saved [OF assms] load_rows_stored [OF assms, of "[]"]
  by (simp add: load_leaderboard_def)

lemma sample_storable: "list_all (storable sample_repr sample_float) [john, bob, john2]"
  by (simp add: storable_def john_def bob_def john2_def sample_repr_def sample_float_def
      field_limit_def)

theorem stored_leaderboard_loads_back_witness:
  "list_all (storable sample_repr sample_float) [john, tricky, john2]
   \<and> load_leaderboard sample_float (Some (save_leaderboard sample_repr [john, tricky, john2]))
       = Inr [john, tricky, john2]"
proof -
  have h: "list_all (storable sample_repr sample_float) [john, tricky, john2]"
    by (simp add: storable_def john_def tricky_def john2_def sample_repr_def sample_float_def
        field_limit_def)
  show ?thesis using h stored_leaderboard_loads_back [OF h] by simp
qed

text \<open>A session that starts from a store this program wrote, from a sorted leaderboard,
  starts with that leaderboard, sorted.\<close>

lemma session_start_sorted:
  assumes "list_all (storable repr flt) board" "score_descending board"
  shows "start_session flt (Some (save_leaderboard repr board))
           = Inr \<lparr>leaderboard = board, csv_file = Some (save_leaderboard repr board)\<rparr>
         \<and> score_descending board"
  using csv_reader_saved [OF assms(1)] load_rows_stored [OF assms(1), of "[]"] assms(2)
  by (simp add: load_leaderboard_def start_session_def)

text \<open>A first session, with no store yet, starts with the empty leaderboard.\<close>

lemma first_session_empty:
  "start_session flt None = Inr \<lparr>leaderboard = [], csv_file = None\<rparr>"
  by (simp add: start_session_def load_leaderboard_def)

subsection \<open>Loading\<close>

lemma load_rows_bad_score:
  "Inr [n, s, t] \<in> set rows \<Longrightarrow> flt s = None \<Longrightarrow> \<exists>e. load_rows flt rows data = Inl e"
proof (induction rows arbitrary: data)
  case Nil
  then show ?case by simp
next
  case (Cons item rows)
  show ?case
  proof (cases item)
    case (Inl e)
    then show ?thesis by simp
  next
    case (Inr row)
    show ?thesis
    proof (cases "item = Inr [n, s, t]")
      case True
      then show ?thesis using Cons.prems(2) by simp
    next
      case False
      then have "Inr [n, s, t] \<in> set rows" using Cons.prems(1) by simp
      then have "\<exists>e. load_rows flt rows data' = Inl e" for data'
        using Cons.IH Cons.prems(2) by blast
      then show ?thesis using Inr
        by (auto split: list.splits option.splits)
    qed
  qed
qed

lemma load_rows_ok:
  "load_rows flt rows data = Inr board \<Longrightarrow>
   \<exists>new. board = data @ new \<and> list_all2 (row_of flt) rows new"
proof (induction rows arbitrary: data)
  case Nil
  then show ?case by simp
next
  case (Cons item rows)
  then obtain n s t x where item: "item = Inr [n, s, t]" and x: "flt s = Some x"
    and rest: "load_rows flt rows (data @ [\<lparr>name = n, score = x, timestamp = t\<rparr>]) = Inr board"
    by (cases item) (auto split: list.splits option.splits)
  from Cons.IH [OF rest] obtain new where
    new: "board = (data @ [\<lparr>name = n, score = x, timestamp = t\<rparr>]) @ new"
      "list_all2 (row_of flt) rows new"
    by blast
  have "row_of flt item \<lparr>name = n, score = x, timestamp = t\<rparr>"
    using item x by (simp add: row_of_def)
  then have "list_all2 (row_of flt) (item # rows) (\<lparr>name = n, score = x, timestamp = t\<rparr> # new)"
    using new(2) by simp
  then show ?case using new(1) by (intro exI [of _ "\<lparr>name = n, score = x, timestamp = t\<rparr> # new"]) simp
qed

text \<open>
  Claim C10: when the reader yields a row of exactly three fields whose second field is
  not a numeral for \<^verbatim>\<open>float\<close>, \<^verbatim>\<open>load_leaderboard\<close> ends in an error and returns no list, not
  even the rows before the bad one. When it returns a list, every row of the file gave
  one entry, in order, with the number read from its second field.
\<close>

theorem load_fails_on_bad_score:
  "(Inr [n, s, t] \<in> set (csv_reader content) \<and> flt s = None
      \<longrightarrow> (\<exists>e. load_leaderboard flt (Some content) = Inl e))
   \<and> (load_leaderboard flt (Some content) = Inr board
      \<longrightarrow> list_all2 (row_of flt) (csv_reader content) board)"
  using load_rows_bad_score [of n s t "csv_reader content" flt "[]"]
    load_rows_ok [of flt "csv_reader content" "[]" board]
  by (auto simp: load_leaderboard_def)

lemma bad_row_read:
  "csv_reader (writerow [''Ann'', ''abc'', ''2024-01-05 12:00:00''])
     = [Inr [''Ann'', ''abc'', ''2024-01-05 12:00:00'']]"
  using csv_reader_written [of "[[''Ann'', ''abc'', ''2024-01-05 12:00:00'']]"]
  by (simp add: field_limit_def)

theorem load_fails_on_bad_score_witness:
  "Inr [''Ann'', ''abc'', ''2024-01-05 12:00:00'']
       \<in> set (csv_reader (writerow [''Ann'', ''abc'', ''2024-01-05 12:00:00'']))
   \<and> sample_float ''abc'' = None
   \<and> (\<exists>e. load_leaderboard sample_float
              (Some (writerow [''Ann'', ''abc'', ''2024-01-05 12:00:00''])) = Inl e)
   \<and> load_leaderboard sample_float (Some (save_leaderboard sample_repr [john, bob, john2]))
       = Inr [john, bob, john2]
   \<and> list_all2 (row_of sample_float)
        (csv_reader (save_leaderboard sample_repr [john, bob, john2])) [john, bob, john2]"
proof -
  have h1: "Inr [''Ann'', ''abc'', ''2024-01-05 12:00:00'']
       \<in> set (csv_reader (writerow [''Ann'', ''abc'', ''2024-01-05 12:00:00'']))"
    by (simp add: bad_row_read)
  have h2: "sample_float ''abc'' = None" by (simp add: sample_float_def)
  have h3: "load_leaderboard sample_float (Some (save_leaderboard sample_repr [john, bob, john2]))
       = Inr [john, bob, john2]"
    using csv_reader_saved [OF sample_storable] load_rows_stored [OF sample_storable, of "[]"]
    by (simp add: load_leaderboard_def)
  show ?thesis
    using h1 h2 h3
      load_fails_on_bad_score [of "''Ann''" "''abc''" "''2024-01-05 12:00:00''"
        "writerow [''Ann'', ''abc'', ''2024-01-05 12:00:00'']" sample_float]
      load_fails_on_bad_score [of _ _ _ "save_leaderboard sample_repr [john, bob, john2]"
        sample_float "[john, bob, john2]"]
    by blast
qed

end
